theory Spec2Isabelle
  imports Complex_Main
begin

section \<open>Shared vocabulary\<close>

text \<open>
  The program is \<^verbatim>\<open>src/main.go\<close>, a Telegram bot that resolves TikTok links. The file holds
  two revisions of the program. \<^verbatim>\<open>linkCache.set\<close>, \<^verbatim>\<open>linkCache.get\<close>, \<^verbatim>\<open>randomToken\<close>,
  \<^verbatim>\<open>handleStartPayload\<close>, \<^verbatim>\<open>sendPhotoGroups\<close>, \<^verbatim>\<open>makeVideo\<close> and \<^verbatim>\<open>downloadToMem\<close> are
  identical in both. \<^verbatim>\<open>handlerMessage\<close>, \<^verbatim>\<open>sendTikTok\<close> and \<^verbatim>\<open>fetchTikTok\<close> are embedded as
  the first revision has them; the second adds log lines to them and sends the video where
  the first sends its link. The line numbers quoted are those of the first revision.

  A Go \<^verbatim>\<open>string\<close> and a Go \<^verbatim>\<open>[]byte\<close> are byte sequences: both are \<^typ>\<open>char list\<close> here
  (an Isabelle \<^typ>\<open>char\<close> is one byte). A \<^verbatim>\<open>[]byte\<close> that may be \<^verbatim>\<open>nil\<close> is a
  \<^typ>\<open>char list option\<close>, so that \<^verbatim>\<open>nil\<close> and the empty non-nil slice stay apart.

  What a function does to the outside world is returned as the list of its effects, in
  program order.
\<close>

type_synonym bytes = "char list"

record InputMediaPhoto =
  Media :: string
  Caption :: string
  ParseMode :: string

datatype pipe_end = ImgWriter | AudWriter

datatype effect =
    MuLock
  | MuUnlock
  | MapRead string
  | MapWrite string
  | MapDelete string
  | LogLine string
  | HttpGet string
  | SendMessage int string string
  | SendMediaGroup int "InputMediaPhoto list"
  | OsPipe pipe_end
  | CmdStart real
  | CmdWait
  | GoImgWriter
  | GoAudWriter
  | PipeWrite pipe_end bytes
  | PipeClose pipe_end

section \<open>Token cache\<close>

text \<open>
  \<^verbatim>\<open>cacheTTL = 10 * time.Minute\<close>; a \<^verbatim>\<open>time.Duration\<close> counts nanoseconds. Instants are
  integers, in nanoseconds on the clock \<^verbatim>\<open>time.Now()\<close> reads; \<^verbatim>\<open>t.Add(d)\<close> is \<open>t + d\<close> and
  \<^verbatim>\<open>t.After(u)\<close> is \<open>u < t\<close>.
\<close>

definition cacheTTL :: int where
  "cacheTTL = 10 * 60 * 1000000000"

definition startTokenPref :: string where
  "startTokenPref = ''tt_''"

record cacheItem =
  url :: string
  expires :: int

type_synonym linkCache = "string \<rightharpoonup> cacheItem"

definition newLinkCache :: linkCache where
  "newLinkCache = Map.empty"

subsection \<open>randomToken\<close>

text \<open>
  \<^verbatim>\<open>base64.RawURLEncoding.EncodeToString\<close> of Go's standard library: the URL-safe alphabet,
  three bytes to four characters, no padding.
\<close>

definition encodeURL :: string where
  "encodeURL = ''ABCDEFGHIJKLMNOPQRSTUVWXYZabcdefghijklmnopqrstuvwxyz0123456789-_''"

definition enc64 :: "nat \<Rightarrow> char" where
  "enc64 v = encodeURL ! (v mod 64)"

fun EncodeToString :: "bytes \<Rightarrow> string" where
  "EncodeToString (a # b # c # rest) =
     (let v = of_char a * 65536 + of_char b * 256 + of_char c
      in enc64 (v div 262144) # enc64 (v div 4096) # enc64 (v div 64) # enc64 v
           # EncodeToString rest)"
| "EncodeToString [a, b] =
     (let v = of_char a * 65536 + of_char b * 256
      in [enc64 (v div 262144), enc64 (v div 4096), enc64 (v div 64)])"
| "EncodeToString [a] =
     (let v = of_char a * 65536
      in [enc64 (v div 262144), enc64 (v div 4096)])"
| "EncodeToString [] = []"

text \<open>\<^verbatim>\<open>fmt.Sprintf("%d", n)\<close> for an \<^verbatim>\<open>int64\<close>: the decimal digits, with a minus sign.\<close>

definition digit_char :: "nat \<Rightarrow> char" where
  "digit_char d = ''0123456789'' ! (d mod 10)"

fun decimal_nat :: "nat \<Rightarrow> string" where
  "decimal_nat n = (if n < 10 then [digit_char n] else decimal_nat (n div 10) @ [digit_char n])"

declare decimal_nat.simps [simp del]

definition sprintf_d :: "int \<Rightarrow> string" where
  "sprintf_d i = (if i < 0 then CHR ''-'' # decimal_nat (nat (- i)) else decimal_nat (nat i))"

text \<open>
  \<^verbatim>\<open>rand.Read(buf)\<close> either fills the whole buffer or returns an error. The random source is
  an input of the model: \<open>RandFail\<close> is the error, \<open>RandBytes bs\<close> supplies the bytes (the
  buffer keeps its zeros where \<open>bs\<close> is too short to fill it).
\<close>

datatype rand_source = RandBytes bytes | RandFail

definition rand_Read :: "rand_source \<Rightarrow> bytes \<Rightarrow> bytes \<times> bool" where
  "rand_Read src buf =
     (case src of
        RandFail \<Rightarrow> (buf, True)
      | RandBytes bs \<Rightarrow> (take (length buf) (bs @ buf), False))"

text \<open>
  \<^verbatim>\<open>randomToken\<close> (lines 68-74). \<open>unixNano\<close> is what \<^verbatim>\<open>time.Now().UnixNano()\<close> returns in
  the error branch. The function calls no logger and writes nothing: its effect list is
  empty on both paths.
\<close>

definition randomToken :: "nat \<Rightarrow> rand_source \<Rightarrow> int \<Rightarrow> string \<times> effect list" where
  "randomToken sz src unixNano =
     (let buf = replicate sz (CHR 0x00);
          (buf', err) = rand_Read src buf
      in if err then (sprintf_d unixNano, [])
         else (EncodeToString buf', []))"

subsection \<open>set and get\<close>

text \<open>
  \<^verbatim>\<open>linkCache.set\<close> (lines 46-52). \<open>now\<close> is the reading of \<^verbatim>\<open>time.Now()\<close> taken under the
  lock. The result is the token, the map after the call and the effects.
\<close>

definition linkCache_set ::
  "linkCache \<Rightarrow> string \<Rightarrow> rand_source \<Rightarrow> int \<Rightarrow> int \<Rightarrow> string \<times> linkCache \<times> effect list" where
  "linkCache_set c u src unixNano now =
     (let (token, fx) = randomToken 12 src unixNano
      in (token,
          c(token \<mapsto> \<lparr>url = u, expires = now + cacheTTL\<rparr>),
          fx @ [MuLock, MapWrite token, MuUnlock]))"

text \<open>
  \<^verbatim>\<open>linkCache.get\<close> (lines 54-66). The unlock is deferred, so it is the last effect on
  every path. The result is the pair the Go function returns, the map after the call and
  the effects.
\<close>

definition linkCache_get ::
  "linkCache \<Rightarrow> string \<Rightarrow> int \<Rightarrow> (string \<times> bool) \<times> linkCache \<times> effect list" where
  "linkCache_get c token now =
     (case c token of
        None \<Rightarrow> (('''', False), c, [MuLock, MapRead token, MuUnlock])
      | Some item \<Rightarrow>
          if expires item < now
          then (('''', False), c(token := None), [MuLock, MapRead token, MapDelete token, MuUnlock])
          else ((url item, True), c, [MuLock, MapRead token, MuUnlock]))"

text \<open>
  Other uses of the cache, to state what a lookup sees after them: a \<^verbatim>\<open>get\<close> with its
  token and clock reading, or a \<^verbatim>\<open>set\<close> with its resource, random source and the two
  clock readings. \<open>run_op\<close> is the map after the call, \<open>issued\<close> the token a \<^verbatim>\<open>set\<close> returns.
\<close>

datatype cache_op = OpGet string int | OpPut string rand_source int int

definition run_op :: "linkCache \<Rightarrow> cache_op \<Rightarrow> linkCache" where
  "run_op c op =
     (case op of
        OpGet token now \<Rightarrow> fst (snd (linkCache_get c token now))
      | OpPut u src unixNano now \<Rightarrow> fst (snd (linkCache_set c u src unixNano now)))"

definition issued :: "cache_op \<Rightarrow> string option" where
  "issued op =
     (case op of
        OpGet token now \<Rightarrow> None
      | OpPut u src unixNano now \<Rightarrow> Some (fst (randomToken 12 src unixNano)))"

section \<open>Photo batches\<close>

text \<open>
  \<^verbatim>\<open>models.ParseModeMarkdown\<close> is a constant of the Telegram library
  (\<^verbatim>\<open>github.com/go-telegram/bot/models\<close>), not of this repository.
\<close>

definition ParseModeMarkdown :: string where
  "ParseModeMarkdown = ''MarkdownV2''"

definition groupSize :: nat where
  "groupSize = 10"

text \<open>
  The inner loop of \<^verbatim>\<open>sendPhotoGroups\<close> (lines 257-264): \<^verbatim>\<open>for idx, url := range chunk\<close>,
  started at \<open>idx = 0\<close>.
\<close>

fun media_items :: "nat \<Rightarrow> string list \<Rightarrow> string \<Rightarrow> InputMediaPhoto list" where
  "media_items idx [] caption = []"
| "media_items idx (u # chunk) caption =
     (let item = \<lparr>Media = u, Caption = '''', ParseMode = ''''\<rparr>;
          item' = (if idx = 0 \<and> caption \<noteq> ''''
                   then item\<lparr>Caption := caption, ParseMode := ParseModeMarkdown\<rparr>
                   else item)
      in item' # media_items (idx + 1) chunk caption)"

text \<open>
  The outer loop (lines 249-270), from index \<open>i\<close>. The error \<^verbatim>\<open>SendMediaGroup\<close> returns
  is discarded by the source, so the loop goes on whatever the transport answers.
\<close>

function sendPhotoGroups_from :: "nat \<Rightarrow> int \<Rightarrow> string list \<Rightarrow> string \<Rightarrow> effect list" where
  "sendPhotoGroups_from i chatID imageURLs caption =
     (if i < length imageURLs
      then (let e = i + groupSize;
                e = (if e > length imageURLs then length imageURLs else e);
                chunk = take (e - i) (drop i imageURLs);
                media = media_items 0 chunk caption
            in SendMediaGroup chatID media
                 # sendPhotoGroups_from (i + groupSize) chatID imageURLs caption)
      else [])"
  by pat_completeness auto
termination
  by (relation "measure (\<lambda>(i, chatID, imageURLs, caption). length imageURLs - i)")
     (auto simp: groupSize_def)

declare sendPhotoGroups_from.simps [simp del]

definition sendPhotoGroups :: "int \<Rightarrow> string list \<Rightarrow> string \<Rightarrow> effect list" where
  "sendPhotoGroups chatID imageURLs caption = sendPhotoGroups_from 0 chatID imageURLs caption"

text \<open>The media lists of the \<^verbatim>\<open>SendMediaGroup\<close> calls among some effects, in order.\<close>

fun media_groups :: "effect list \<Rightarrow> InputMediaPhoto list list" where
  "media_groups [] = []"
| "media_groups (SendMediaGroup chatID media # fx) = media # media_groups fx"
| "media_groups (other # fx) = media_groups fx"

section \<open>Resolver and delivery\<close>

record response =
  Title :: string
  Cover :: string
  Play :: string
  Music :: string
  Images :: "string list"
  Duration :: int

text \<open>
  \<^verbatim>\<open>fetchTikTok\<close> (lines 273-285): the remote service is an input, \<open>api link\<close> being the
  decoded answer or \<open>None\<close> where the request or the decoding fails.
\<close>

definition fetchTikTok :: "(string \<Rightarrow> response option) \<Rightarrow> string \<Rightarrow> response option \<times> effect list" where
  "fetchTikTok api link = (api link, [HttpGet (''https://www.tikwm.com/api/?url='' @ link)])"

text \<open>\<^verbatim>\<open>sendTikTok\<close> (lines 225-244).\<close>

definition sendTikTok :: "(string \<Rightarrow> response option) \<Rightarrow> int \<Rightarrow> string \<Rightarrow> effect list" where
  "sendTikTok api chatID link =
     (let (r, fx) = fetchTikTok api link
      in case r of
           None \<Rightarrow> fx
         | Some rs \<Rightarrow>
             if length (Images rs) > 0
             then fx @ sendPhotoGroups chatID (Images rs) (''[src]('' @ link @ '')'')
             else if Play rs \<noteq> ''''
             then fx @ [SendMessage chatID (''[src]('' @ Play rs @ '')'') ParseModeMarkdown]
             else fx)"

section \<open>Strings\<close>

text \<open>
  \<^verbatim>\<open>strings.HasPrefix\<close> and \<^verbatim>\<open>strings.TrimPrefix\<close> of Go's standard library.
\<close>

definition HasPrefix :: "string \<Rightarrow> string \<Rightarrow> bool" where
  "HasPrefix s p = (length p \<le> length s \<and> take (length p) s = p)"

definition HasSuffix :: "string \<Rightarrow> string \<Rightarrow> bool" where
  "HasSuffix s p = (length p \<le> length s \<and> drop (length s - length p) s = p)"

definition TrimPrefix :: "string \<Rightarrow> string \<Rightarrow> string" where
  "TrimPrefix s p = (if HasPrefix s p then drop (length p) s else s)"

text \<open>
  \<^verbatim>\<open>strings.Fields\<close> and \<^verbatim>\<open>strings.TrimSpace\<close> cut at the runes \<^verbatim>\<open>unicode.IsSpace\<close>
  accepts: tab, line feed, vertical tab, form feed, carriage return, space, U+0085, U+00A0,
  U+1680, U+2000 to U+200A, U+2028, U+2029, U+202F, U+205F and U+3000. On the bytes of a
  string these are the UTF-8 encodings below. Each starts with a byte that is never a
  continuation byte, so one of them standing at a byte offset is a rune of its own, and
  scanning by bytes finds the same fields as Go's scan by runes.
\<close>

definition whiteSpace :: "string list" where
  "whiteSpace =
     [[CHR 0x09], [CHR 0x0A], [CHR 0x0B], [CHR 0x0C], [CHR 0x0D], [CHR 0x20],
      [CHR 0xC2, CHR 0x85], [CHR 0xC2, CHR 0xA0],
      [CHR 0xE1, CHR 0x9A, CHR 0x80],
      [CHR 0xE2, CHR 0x80, CHR 0x80], [CHR 0xE2, CHR 0x80, CHR 0x81],
      [CHR 0xE2, CHR 0x80, CHR 0x82], [CHR 0xE2, CHR 0x80, CHR 0x83],
      [CHR 0xE2, CHR 0x80, CHR 0x84], [CHR 0xE2, CHR 0x80, CHR 0x85],
      [CHR 0xE2, CHR 0x80, CHR 0x86], [CHR 0xE2, CHR 0x80, CHR 0x87],
      [CHR 0xE2, CHR 0x80, CHR 0x88], [CHR 0xE2, CHR 0x80, CHR 0x89],
      [CHR 0xE2, CHR 0x80, CHR 0x8A],
      [CHR 0xE2, CHR 0x80, CHR 0xA8], [CHR 0xE2, CHR 0x80, CHR 0xA9],
      [CHR 0xE2, CHR 0x80, CHR 0xAF],
      [CHR 0xE2, CHR 0x81, CHR 0x9F],
      [CHR 0xE3, CHR 0x80, CHR 0x80]]"

text \<open>The width in bytes of the white-space rune \<open>s\<close> starts with (ends with); 0 if none.\<close>

definition space_width :: "string \<Rightarrow> nat" where
  "space_width s = (case find (HasPrefix s) whiteSpace of None \<Rightarrow> 0 | Some p \<Rightarrow> length p)"

definition space_width_last :: "string \<Rightarrow> nat" where
  "space_width_last s = (case find (HasSuffix s) whiteSpace of None \<Rightarrow> 0 | Some p \<Rightarrow> length p)"

text \<open>
  The scan of \<^verbatim>\<open>strings.Fields\<close>: \<open>cur\<close> is the field being read, if any. White space
  ends the field; any other byte extends it or starts one.
\<close>

fun fields_scan :: "string option \<Rightarrow> string \<Rightarrow> string list" where
  "fields_scan cur [] = (case cur of None \<Rightarrow> [] | Some f \<Rightarrow> [f])"
| "fields_scan cur (c # r) =
     (let w = space_width (c # r)
      in if w = 0
         then fields_scan (Some ((case cur of None \<Rightarrow> [] | Some f \<Rightarrow> f) @ [c])) r
         else (case cur of None \<Rightarrow> [] | Some f \<Rightarrow> [f]) @ fields_scan None (drop (w - 1) r))"

definition Fields :: "string \<Rightarrow> string list" where
  "Fields s = fields_scan None s"

fun trimLeft :: "string \<Rightarrow> string" where
  "trimLeft [] = []"
| "trimLeft (c # r) =
     (let w = space_width (c # r)
      in if w = 0 then c # r else trimLeft (drop (w - 1) r))"

fun trimRight :: "string \<Rightarrow> string" where
  "trimRight [] = []"
| "trimRight (c # r) =
     (let w = space_width_last (c # r)
      in if w = 0 then c # r else trimRight (take (length (c # r) - w) (c # r)))"

definition TrimSpace :: "string \<Rightarrow> string" where
  "TrimSpace s = trimRight (trimLeft s)"

text \<open>
  A string is free of white space when no white-space rune starts at any of its offsets,
  and it is not empty. The fields of a string are free of white space.
\<close>

definition space_free :: "string \<Rightarrow> bool" where
  "space_free f = (f \<noteq> [] \<and> (\<forall>n<length f. space_width (drop n f) = 0))"

section \<open>The deep-link callback\<close>

text \<open>The text of line 216, as its UTF-8 bytes.\<close>

definition linkExpiredText :: string where
  "linkExpiredText =
     [CHR 0xD0, CHR 0xA1, CHR 0xD1, CHR 0x81, CHR 0xD1, CHR 0x8B, CHR 0xD0, CHR 0xBB,
      CHR 0xD0, CHR 0xBA, CHR 0xD0, CHR 0xB0, CHR 0x20, CHR 0xD1, CHR 0x83, CHR 0xD1,
      CHR 0x81, CHR 0xD1, CHR 0x82, CHR 0xD0, CHR 0xB0, CHR 0xD1, CHR 0x80, CHR 0xD0,
      CHR 0xB5, CHR 0xD0, CHR 0xBB, CHR 0xD0, CHR 0xB0, CHR 0x2E, CHR 0x20, CHR 0xD0,
      CHR 0xA1, CHR 0xD0, CHR 0xBD, CHR 0xD0, CHR 0xB0, CHR 0xD1, CHR 0x87, CHR 0xD0,
      CHR 0xB0, CHR 0xD0, CHR 0xBB, CHR 0xD0, CHR 0xB0, CHR 0x20, CHR 0xD0, CHR 0xBE,
      CHR 0xD1, CHR 0x82, CHR 0xD0, CHR 0xBF, CHR 0xD1, CHR 0x80, CHR 0xD0, CHR 0xB0,
      CHR 0xD0, CHR 0xB2, CHR 0xD1, CHR 0x8C, CHR 0xD1, CHR 0x82, CHR 0xD0, CHR 0xB5,
      CHR 0x20, CHR 0xD1, CHR 0x81, CHR 0xD1, CHR 0x81, CHR 0xD1, CHR 0x8B, CHR 0xD0,
      CHR 0xBB, CHR 0xD0, CHR 0xBA, CHR 0xD1, CHR 0x83, CHR 0x20, CHR 0xD0, CHR 0xB7,
      CHR 0xD0, CHR 0xB0, CHR 0xD0, CHR 0xBD, CHR 0xD0, CHR 0xBE, CHR 0xD0, CHR 0xB2,
      CHR 0xD0, CHR 0xBE, CHR 0x20, CHR 0xD1, CHR 0x87, CHR 0xD0, CHR 0xB5, CHR 0xD1,
      CHR 0x80, CHR 0xD0, CHR 0xB5, CHR 0xD0, CHR 0xB7, CHR 0x20, CHR 0x69, CHR 0x6E,
      CHR 0x6C, CHR 0x69, CHR 0x6E, CHR 0x65, CHR 0x20, CHR 0xD1, CHR 0x80, CHR 0xD0,
      CHR 0xB5, CHR 0xD0, CHR 0xB6, CHR 0xD0, CHR 0xB8, CHR 0xD0, CHR 0xBC, CHR 0x2E]"

text \<open>
  \<^verbatim>\<open>handleStartPayload\<close> (lines 197-223), on the message text. \<open>c\<close> is the global
  \<^verbatim>\<open>inlineCache\<close>, \<open>now\<close> the clock reading \<^verbatim>\<open>get\<close> takes. The result is the boolean the Go
  function returns, the cache after the call and the effects.
\<close>

definition handleStartPayload ::
  "(string \<Rightarrow> response option) \<Rightarrow> linkCache \<Rightarrow> int \<Rightarrow> int \<Rightarrow> string
     \<Rightarrow> bool \<times> linkCache \<times> effect list" where
  "handleStartPayload api c now chatID txt =
     (let parts = Fields txt
      in if length parts = 0 \<or> parts ! 0 \<noteq> ''/start'' then (False, c, [])
         else if length parts < 2 then (False, c, [])
         else
           (let payload = TrimSpace (parts ! 1)
            in if \<not> HasPrefix payload startTokenPref then (False, c, [])
               else
                 (let token = TrimPrefix payload startTokenPref;
                      ((link, ok), c', fx) = linkCache_get c token now
                  in if \<not> ok
                     then (True, c', fx @ [SendMessage chatID linkExpiredText ''''])
                     else (True, c', fx @ sendTikTok api chatID link))))"

text \<open>
  \<^verbatim>\<open>handlerMessage\<close> (lines 180-195). \<open>findLink\<close> stands for \<^verbatim>\<open>tiktokRegex.FindString\<close>.
\<close>

definition handlerMessage ::
  "(string \<Rightarrow> response option) \<Rightarrow> (string \<Rightarrow> string) \<Rightarrow> linkCache \<Rightarrow> int \<Rightarrow> int \<Rightarrow> string
     \<Rightarrow> linkCache \<times> effect list" where
  "handlerMessage api findLink c now chatID txt =
     (if txt = '''' then (c, [])
      else
        (let (handled, c', fx) = handleStartPayload api c now chatID txt
         in if handled then (c', fx)
            else
              (let link = findLink txt
               in if link = '''' then (c', fx)
                  else (c', fx @ sendTikTok api chatID link))))"

text \<open>
  The deep link \<^verbatim>\<open>handlerInline\<close> mints (line 132), and the message Telegram sends
  the bot when the link is opened: the command and the link's \<^verbatim>\<open>start\<close> parameter.
\<close>

definition deepLink :: "string \<Rightarrow> string \<Rightarrow> string" where
  "deepLink botUsername token =
     ''https://t.me/'' @ botUsername @ ''?start='' @ startTokenPref @ token"

section \<open>Media fetcher and compositor\<close>

text \<open>
  \<^verbatim>\<open>downloadToMem\<close> (lines 363-370). The network is an input: \<open>net u\<close> is \<open>HttpError\<close>
  where \<^verbatim>\<open>http.Get\<close> fails, and otherwise \<open>HttpBody b e\<close>, the bytes \<^verbatim>\<open>io.ReadAll\<close> returns
  (never \<^verbatim>\<open>nil\<close>) and whether it returns an error with them. The result is the buffer and
  whether the error is set.
\<close>

datatype http_result = HttpError | HttpBody bytes bool

definition downloadToMem :: "(string \<Rightarrow> http_result) \<Rightarrow> string \<Rightarrow> bytes option \<times> bool" where
  "downloadToMem net u =
     (case net u of
        HttpError \<Rightarrow> (None, True)
      | HttpBody b e \<Rightarrow> (Some b, e))"

text \<open>
  The goroutines of lines 298-308, each with the arguments it is started with: one for
  the audio, and one per image with its index and its URL.
\<close>

datatype task = AudioTask string | ImageTask nat string

definition spawn_tasks :: "string list \<Rightarrow> string \<Rightarrow> task list" where
  "spawn_tasks imageURLs audioURL =
     AudioTask audioURL # map (\<lambda>(i, u). ImageTask i u) (enumerate 0 imageURLs)"

definition task_url :: "task \<Rightarrow> string" where
  "task_url t = (case t of AudioTask u \<Rightarrow> u | ImageTask idx u \<Rightarrow> u)"

text \<open>
  What one goroutine does to \<^verbatim>\<open>imgBufs\<close> and \<^verbatim>\<open>audBuf\<close>; the error of the download is
  dropped (\<^verbatim>\<open>_\<close>).
\<close>

definition run_task ::
  "(string \<Rightarrow> http_result) \<Rightarrow> bytes option list \<times> bytes option \<Rightarrow> task
     \<Rightarrow> bytes option list \<times> bytes option" where
  "run_task net st t =
     (case t of
        AudioTask u \<Rightarrow> (fst st, fst (downloadToMem net u))
      | ImageTask idx u \<Rightarrow> ((fst st)[idx := fst (downloadToMem net u)], snd st))"

text \<open>
  The goroutines finish in an order the scheduler and the network choose. \<open>picks\<close> are
  those choices: each number selects, among the tasks still running, the next to finish
  (the first, once the choices are used up). Every order of completion is the result of
  some \<open>picks\<close>.
\<close>

function completion_order :: "nat list \<Rightarrow> task list \<Rightarrow> task list" where
  "completion_order picks [] = []"
| "completion_order picks (t # ts) =
     (let k = (case picks of [] \<Rightarrow> 0 | p # ps \<Rightarrow> p mod length (t # ts))
      in (t # ts) ! k
           # completion_order (tl picks) (take k (t # ts) @ drop (Suc k) (t # ts)))"
  by pat_completeness auto
termination
  by (relation "measure (\<lambda>(picks, ts). length ts)") (auto split: list.splits)

declare completion_order.simps [simp del]

text \<open>
  Lines 292-309: the buffers are allocated, the goroutines started, and \<^verbatim>\<open>wg.Wait()\<close>
  returns once all of them are done. The result is \<^verbatim>\<open>imgBufs\<close>, \<^verbatim>\<open>audBuf\<close> and the
  requests made.
\<close>

definition fetchAll ::
  "(string \<Rightarrow> http_result) \<Rightarrow> nat list \<Rightarrow> string list \<Rightarrow> string
     \<Rightarrow> bytes option list \<times> bytes option \<times> effect list" where
  "fetchAll net picks imageURLs audioURL =
     (let imgBufs = replicate (length imageURLs) None;
          audBuf = None;
          order = completion_order picks (spawn_tasks imageURLs audioURL);
          (imgBufs, audBuf) = foldl (run_task net) (imgBufs, audBuf) order
      in (imgBufs, audBuf, map (\<lambda>t. HttpGet (task_url t)) order))"

text \<open>
  The frame rate of lines 288-290 and 318. Go divides two \<^verbatim>\<open>float64\<close>; the model divides
  the same two numbers as reals, of which the \<^verbatim>\<open>float64\<close> quotient is the rounding.
\<close>

definition frameRate :: "string list \<Rightarrow> int \<Rightarrow> real" where
  "frameRate imageURLs duration =
     (let duration = (if duration \<le> 0 then 10 else duration)
      in real (length imageURLs) / real_of_int duration)"

text \<open>
  The two writer goroutines (lines 342-349 and 351-354). The results of \<^verbatim>\<open>Write\<close> are
  discarded by the source, so a failed write changes nothing in what follows; the deferred
  \<^verbatim>\<open>Close\<close> is the last effect.
\<close>

fun write_bufs :: "bytes option list \<Rightarrow> effect list" where
  "write_bufs [] = []"
| "write_bufs (b # bs) =
     (case b of None \<Rightarrow> [] | Some x \<Rightarrow> [PipeWrite ImgWriter x]) @ write_bufs bs"

definition imgWriter_routine :: "bytes option list \<Rightarrow> effect list" where
  "imgWriter_routine imgBufs = write_bufs imgBufs @ [PipeClose ImgWriter]"

definition audWriter_routine :: "bytes \<Rightarrow> effect list" where
  "audWriter_routine audBuf = [PipeWrite AudWriter audBuf] @ [PipeClose AudWriter]"

text \<open>
  The external process is an input: whether \<^verbatim>\<open>cmd.Start\<close> and \<^verbatim>\<open>cmd.Wait\<close> fail (with
  the error's text), and what the process writes to its two output streams.
\<close>

record proc_env =
  start_error :: "string option"
  wait_error :: "string option"
  proc_stdout :: bytes
  proc_stderr :: string

text \<open>
  A run of \<^verbatim>\<open>makeVideo\<close>: the pair it returns (\<open>None\<close> for \<^verbatim>\<open>nil\<close>), the effects of the
  calling goroutine in program order, where \<open>GoImgWriter\<close> and \<open>GoAudWriter\<close> are the two
  \<^verbatim>\<open>go\<close> statements, and the effects of each writer goroutine (none when it is not
  started).
\<close>

record video_run =
  returned :: "bytes option \<times> string option"
  main_fx :: "effect list"
  img_writer_fx :: "effect list"
  aud_writer_fx :: "effect list"

text \<open>
  \<^verbatim>\<open>makeVideo\<close> (lines 287-361). The errors of \<^verbatim>\<open>os.Pipe\<close> are discarded by the source
  and change no branch. \<open>CmdStart\<close> carries the frame rate, the one argument of the
  encoder that is computed.
\<close>

definition makeVideo ::
  "(string \<Rightarrow> http_result) \<Rightarrow> nat list \<Rightarrow> proc_env \<Rightarrow> string list \<Rightarrow> string \<Rightarrow> int \<Rightarrow> video_run" where
  "makeVideo net picks proc imageURLs audioURL duration =
     (let (imgBufs, audBuf, fetch_fx) = fetchAll net picks imageURLs audioURL
      in case audBuf of
           None \<Rightarrow>
             \<lparr>returned = (None, Some ''failed to download audio''),
              main_fx = fetch_fx, img_writer_fx = [], aud_writer_fx = []\<rparr>
         | Some aud \<Rightarrow>
             (let pipes = [OsPipe ImgWriter, OsPipe AudWriter];
                  start = CmdStart (frameRate imageURLs duration)
              in case start_error proc of
                   Some err \<Rightarrow>
                     \<lparr>returned = (None, Some err),
                      main_fx = fetch_fx @ pipes @ [start],
                      img_writer_fx = [], aud_writer_fx = []\<rparr>
                 | None \<Rightarrow>
                     \<lparr>returned =
                        (case wait_error proc of
                           Some err \<Rightarrow>
                             (None, Some (''ffmpeg: '' @ err @ '', stderr: '' @ proc_stderr proc))
                         | None \<Rightarrow> (Some (proc_stdout proc), None)),
                      main_fx = fetch_fx @ pipes @ [start, GoImgWriter, GoAudWriter, CmdWait],
                      img_writer_fx = imgWriter_routine imgBufs,
                      aud_writer_fx = audWriter_routine aud\<rparr>))"

subsection \<open>Interleavings\<close>

text \<open>
  All ways of running two goroutines side by side, each keeping its own order.
\<close>

fun interleave :: "'a list \<Rightarrow> 'a list \<Rightarrow> 'a list list" where
  "interleave [] ys = [ys]"
| "interleave xs [] = [xs]"
| "interleave (x # xs) (y # ys) =
     map ((#) x) (interleave xs (y # ys)) @ map ((#) y) (interleave (x # xs) ys)"

text \<open>
  The traces of a run: the calling goroutine's effects, with each writer running beside
  whatever follows the \<^verbatim>\<open>go\<close> statement that starts it.
\<close>

fun weave :: "effect list \<Rightarrow> effect list \<Rightarrow> effect list \<Rightarrow> effect list list" where
  "weave [] iw aw = [[]]"
| "weave (e # es) iw aw =
     (if e = GoImgWriter
      then map ((#) e) (concat (map (interleave iw) (weave es iw aw)))
      else if e = GoAudWriter
      then map ((#) e) (concat (map (interleave aw) (weave es iw aw)))
      else map ((#) e) (weave es iw aw))"

definition video_traces :: "video_run \<Rightarrow> effect list list" where
  "video_traces r = weave (main_fx r) (img_writer_fx r) (aud_writer_fx r)"

text \<open>Predicates on traces.\<close>

definition is_log :: "effect \<Rightarrow> bool" where
  "is_log e = (case e of LogLine s \<Rightarrow> True | _ \<Rightarrow> False)"

definition is_write :: "effect \<Rightarrow> bool" where
  "is_write e = (case e of PipeWrite p b \<Rightarrow> True | _ \<Rightarrow> False)"

definition is_start :: "effect \<Rightarrow> bool" where
  "is_start e = (case e of CmdStart r \<Rightarrow> True | _ \<Rightarrow> False)"

definition on_pipe :: "pipe_end \<Rightarrow> effect \<Rightarrow> bool" where
  "on_pipe p e = (case e of PipeWrite q b \<Rightarrow> q = p | PipeClose q \<Rightarrow> q = p | _ \<Rightarrow> False)"



section \<open>Properties of the token cache\<close>

lemma randomToken_fail:
  "randomToken n RandFail un = (sprintf_d un, [])"
  by (simp add: randomToken_def rand_Read_def)

lemma randomToken_bytes:
  "randomToken n (RandBytes bs) un =
     (EncodeToString (take n (bs @ replicate n (CHR 0x00))), [])"
  by (simp add: randomToken_def rand_Read_def)

lemma randomToken_silent: "snd (randomToken n src un) = []"
  by (cases src) (simp_all add: randomToken_fail randomToken_bytes)

lemma token_abcdefghijkl:
  "randomToken 12 (RandBytes ''abcdefghijkl'') un = (''YWJjZGVmZ2hpamts'', [])"
  by (simp add: randomToken_bytes enc64_def encodeURL_def)

lemma set_stores:
  "linkCache_set c u src un t0 = (token, c1, fx) \<Longrightarrow>
     c1 token = Some \<lparr>url = u, expires = t0 + cacheTTL\<rparr>"
  by (auto simp: linkCache_set_def Let_def split: prod.splits)

lemma get_keeps_or_drops:
  "fst (snd (linkCache_get c k now)) token = c token
     \<or> fst (snd (linkCache_get c k now)) token = None"
  by (simp add: linkCache_get_def split: option.split)

lemma set_keeps_others:
  "fst (randomToken 12 src un) \<noteq> token \<Longrightarrow>
     fst (snd (linkCache_set c u src un now)) token = c token"
  by (cases "randomToken 12 src un") (simp add: linkCache_set_def)

lemma run_op_keeps_or_drops:
  "issued op \<noteq> Some token \<Longrightarrow> run_op c op token = c token \<or> run_op c op token = None"
  by (cases op) (simp_all add: run_op_def issued_def get_keeps_or_drops set_keeps_others)

lemma run_ops_keeps_or_drops:
  "\<forall>op\<in>set ops. issued op \<noteq> Some token \<Longrightarrow>
     foldl run_op c ops token = c token \<or> foldl run_op c ops token = None"
proof (induction ops arbitrary: c)
  case Nil
  show ?case by simp
next
  case (Cons op ops)
  from Cons.prems have "issued op \<noteq> Some token" and "\<forall>op\<in>set ops. issued op \<noteq> Some token"
    by simp_all
  with Cons.IH [of "run_op c op"] run_op_keeps_or_drops [of op token c]
  show ?case by auto
qed

lemma get_absent: "c token = None \<Longrightarrow> fst (linkCache_get c token now) = ('''', False)"
  by (simp add: linkCache_get_def)

text \<open>
  C1, as the claim states it, fails on the boundary: an entry put at time 1000 is still
  found by a \<^verbatim>\<open>get\<close> at time 1000 + TTL, because line 61 tests \<^verbatim>\<open>time.Now().After(item.expires)\<close>,
  which is false at the instant of expiry itself.
\<close>

theorem C1_get_at_ttl_counterexample:
  "linkCache_set newLinkCache ''L'' (RandBytes ''abcdefghijkl'') 0 1000 =
     (''YWJjZGVmZ2hpamts'',
      [''YWJjZGVmZ2hpamts'' \<mapsto> \<lparr>url = ''L'', expires = 1000 + cacheTTL\<rparr>],
      [MuLock, MapWrite ''YWJjZGVmZ2hpamts'', MuUnlock])
   \<and> fst (linkCache_get [''YWJjZGVmZ2hpamts'' \<mapsto> \<lparr>url = ''L'', expires = 1000 + cacheTTL\<rparr>]
            ''YWJjZGVmZ2hpamts'' (1000 + cacheTTL)) = (''L'', True)"
  by (simp add: linkCache_set_def token_abcdefghijkl newLinkCache_def linkCache_get_def)

text \<open>
  C1, amended: for a token put at time \<open>t0\<close>, a \<^verbatim>\<open>get\<close> of it at any time strictly after
  \<open>t0 + cacheTTL\<close> returns not-found, and so does every later \<^verbatim>\<open>get\<close> of it, at any clock
  reading \<open>t'\<close>: the entry is gone and no lookup puts it back. This holds whatever the
  cache is used for in between (\<open>ops1\<close>) and afterwards (\<open>ops2\<close>), lookups of any token at
  any time and puts of other resources, as long as no such put is handed the same token
  again.
\<close>

theorem C1_expired_token_stays_not_found:
  assumes "linkCache_set c u src un t0 = (token, c1, fx)"
    and "t0 + cacheTTL < t"
    and "\<forall>op\<in>set (ops1 @ ops2). issued op \<noteq> Some token"
  shows "fst (linkCache_get (foldl run_op c1 ops1) token t) = ('''', False)
       \<and> fst (linkCache_get
                (foldl run_op (fst (snd (linkCache_get (foldl run_op c1 ops1) token t))) ops2)
                token t')
           = ('''', False)"
proof -
  let ?c2 = "foldl run_op c1 ops1"
  let ?c3 = "fst (snd (linkCache_get ?c2 token t))"
  from assms(3) have o1: "\<forall>op\<in>set ops1. issued op \<noteq> Some token"
    and o2: "\<forall>op\<in>set ops2. issued op \<noteq> Some token" by simp_all
  have c1: "c1 token = Some \<lparr>url = u, expires = t0 + cacheTTL\<rparr>"
    by (rule set_stores [OF assms(1)])
  have c2: "?c2 token = Some \<lparr>url = u, expires = t0 + cacheTTL\<rparr> \<or> ?c2 token = None"
    using run_ops_keeps_or_drops [OF o1, of c1] c1 by simp
  have r: "fst (linkCache_get ?c2 token t) = ('''', False)" and c3: "?c3 token = None"
    using c2 assms(2) by (auto simp: linkCache_get_def)
  have "foldl run_op ?c3 ops2 token = None"
    using run_ops_keeps_or_drops [OF o2, of ?c3] c3 by simp
  then have "fst (linkCache_get (foldl run_op ?c3 ops2) token t') = ('''', False)"
    by (rule get_absent)
  with r show ?thesis by simp
qed

theorem C1_expired_token_stays_not_found_witness:
  "linkCache_set newLinkCache ''L'' (RandBytes ''abcdefghijkl'') 0 1000 =
     (''YWJjZGVmZ2hpamts'',
      [''YWJjZGVmZ2hpamts'' \<mapsto> \<lparr>url = ''L'', expires = 1000 + cacheTTL\<rparr>],
      [MuLock, MapWrite ''YWJjZGVmZ2hpamts'', MuUnlock])
   \<and> 1000 + cacheTTL < 1001 + cacheTTL
   \<and> issued (OpGet ''YWJjZGVmZ2hpamts'' 2000) \<noteq> Some ''YWJjZGVmZ2hpamts''
   \<and> issued (OpPut ''M'' RandFail 17 3000) \<noteq> Some ''YWJjZGVmZ2hpamts''
   \<and> fst (linkCache_get
            (foldl run_op
               [''YWJjZGVmZ2hpamts'' \<mapsto> \<lparr>url = ''L'', expires = 1000 + cacheTTL\<rparr>]
               [OpGet ''YWJjZGVmZ2hpamts'' 2000])
            ''YWJjZGVmZ2hpamts'' (1001 + cacheTTL)) = ('''', False)
   \<and> fst (linkCache_get
            (foldl run_op
               (fst (snd (linkCache_get
                  (foldl run_op
                     [''YWJjZGVmZ2hpamts'' \<mapsto> \<lparr>url = ''L'', expires = 1000 + cacheTTL\<rparr>]
                     [OpGet ''YWJjZGVmZ2hpamts'' 2000])
                  ''YWJjZGVmZ2hpamts'' (1001 + cacheTTL))))
               [OpPut ''M'' RandFail 17 3000])
            ''YWJjZGVmZ2hpamts'' 1500) = ('''', False)"
proof -
  have h1: "linkCache_set newLinkCache ''L'' (RandBytes ''abcdefghijkl'') 0 1000 =
     (''YWJjZGVmZ2hpamts'',
      [''YWJjZGVmZ2hpamts'' \<mapsto> \<lparr>url = ''L'', expires = 1000 + cacheTTL\<rparr>],
      [MuLock, MapWrite ''YWJjZGVmZ2hpamts'', MuUnlock])"
    by (simp add: linkCache_set_def token_abcdefghijkl newLinkCache_def)
  have h2: "1000 + cacheTTL < 1001 + cacheTTL" by simp
  have i1: "issued (OpGet ''YWJjZGVmZ2hpamts'' 2000) \<noteq> Some ''YWJjZGVmZ2hpamts''"
    by (simp add: issued_def)
  have i2: "issued (OpPut ''M'' RandFail 17 3000) \<noteq> Some ''YWJjZGVmZ2hpamts''"
    by (simp add: issued_def randomToken_fail sprintf_d_def decimal_nat.simps digit_char_def)
  from i1 i2 have h3: "\<forall>op\<in>set ([OpGet ''YWJjZGVmZ2hpamts'' 2000] @ [OpPut ''M'' RandFail 17 3000]).
      issued op \<noteq> Some ''YWJjZGVmZ2hpamts''"
    by simp
  note inst = C1_expired_token_stays_not_found [OF h1 h2 h3, of 1500]
  from inst have r1: "fst (linkCache_get
            (foldl run_op
               [''YWJjZGVmZ2hpamts'' \<mapsto> \<lparr>url = ''L'', expires = 1000 + cacheTTL\<rparr>]
               [OpGet ''YWJjZGVmZ2hpamts'' 2000])
            ''YWJjZGVmZ2hpamts'' (1001 + cacheTTL)) = ('''', False)"
    by (rule conjunct1)
  from inst have r2: "fst (linkCache_get
            (foldl run_op
               (fst (snd (linkCache_get
                  (foldl run_op
                     [''YWJjZGVmZ2hpamts'' \<mapsto> \<lparr>url = ''L'', expires = 1000 + cacheTTL\<rparr>]
                     [OpGet ''YWJjZGVmZ2hpamts'' 2000])
                  ''YWJjZGVmZ2hpamts'' (1001 + cacheTTL))))
               [OpPut ''M'' RandFail 17 3000])
            ''YWJjZGVmZ2hpamts'' 1500) = ('''', False)"
    by (rule conjunct2)
  from h1 h2 i1 i2 r1 r2 show ?thesis by (intro conjI)
qed

text \<open>
  C2: whatever the resource \<open>u\<close> and whatever token \<^verbatim>\<open>set\<close> returns for it, a \<^verbatim>\<open>get\<close> of that
  token before the TTL has elapsed returns \<open>(u, found)\<close>; it leaves the cache as it was.
\<close>

theorem C2_token_round_trip:
  assumes "linkCache_set c u src un t0 = (token, c1, fx)"
    and "t < t0 + cacheTTL"
  shows "fst (linkCache_get c1 token t) = (u, True)
       \<and> fst (snd (linkCache_get c1 token t)) = c1"
  using set_stores [OF assms(1)] assms(2) by (simp add: linkCache_get_def)

theorem C2_token_round_trip_witness:
  "linkCache_set newLinkCache ''L'' (RandBytes ''abcdefghijkl'') 0 1000 =
     (''YWJjZGVmZ2hpamts'',
      [''YWJjZGVmZ2hpamts'' \<mapsto> \<lparr>url = ''L'', expires = 1000 + cacheTTL\<rparr>],
      [MuLock, MapWrite ''YWJjZGVmZ2hpamts'', MuUnlock])
   \<and> (1000::int) < 1000 + cacheTTL
   \<and> fst (linkCache_get [''YWJjZGVmZ2hpamts'' \<mapsto> \<lparr>url = ''L'', expires = 1000 + cacheTTL\<rparr>]
            ''YWJjZGVmZ2hpamts'' 1000) = (''L'', True)"
proof -
  have h1: "linkCache_set newLinkCache ''L'' (RandBytes ''abcdefghijkl'') 0 1000 =
     (''YWJjZGVmZ2hpamts'',
      [''YWJjZGVmZ2hpamts'' \<mapsto> \<lparr>url = ''L'', expires = 1000 + cacheTTL\<rparr>],
      [MuLock, MapWrite ''YWJjZGVmZ2hpamts'', MuUnlock])"
    by (simp add: linkCache_set_def token_abcdefghijkl newLinkCache_def)
  have h2: "(1000::int) < 1000 + cacheTTL" by (simp add: cacheTTL_def)
  from C2_token_round_trip [OF h1 h2] h1 h2 show ?thesis by simp
qed

text \<open>
  C3: a \<^verbatim>\<open>get\<close> that finds the token's entry expired (line 61) returns not-found and
  removes that entry and no other, between the one \<^verbatim>\<open>Lock\<close> and the one \<^verbatim>\<open>Unlock\<close> of the
  call in which it read it; a \<^verbatim>\<open>get\<close> of an absent token, or of one whose entry is not
  expired, leaves the map as it was and only reads it.
\<close>

theorem C3_get_frame:
  "(c token = Some item \<and> expires item < now \<longrightarrow>
      linkCache_get c token now =
        (('''', False), c(token := None), [MuLock, MapRead token, MapDelete token, MuUnlock])
      \<and> dom (fst (snd (linkCache_get c token now))) = dom c - {token}
      \<and> (\<forall>k. k \<noteq> token \<longrightarrow> fst (snd (linkCache_get c token now)) k = c k))
   \<and> (c token = Some item \<and> \<not> expires item < now \<longrightarrow>
      linkCache_get c token now = ((url item, True), c, [MuLock, MapRead token, MuUnlock]))
   \<and> (c token = None \<longrightarrow>
      linkCache_get c token now = (('''', False), c, [MuLock, MapRead token, MuUnlock]))"
  by (auto simp: linkCache_get_def)

theorem C3_get_frame_witness:
  "linkCache_get [''a'' \<mapsto> \<lparr>url = ''L'', expires = 5\<rparr>, ''b'' \<mapsto> \<lparr>url = ''M'', expires = 9\<rparr>] ''a'' 7 =
     (('''', False), [''b'' \<mapsto> \<lparr>url = ''M'', expires = 9\<rparr>],
      [MuLock, MapRead ''a'', MapDelete ''a'', MuUnlock])
   \<and> linkCache_get [''a'' \<mapsto> \<lparr>url = ''L'', expires = 5\<rparr>, ''b'' \<mapsto> \<lparr>url = ''M'', expires = 9\<rparr>] ''b'' 7 =
     ((''M'', True), [''a'' \<mapsto> \<lparr>url = ''L'', expires = 5\<rparr>, ''b'' \<mapsto> \<lparr>url = ''M'', expires = 9\<rparr>],
      [MuLock, MapRead ''b'', MuUnlock])
   \<and> linkCache_get [''a'' \<mapsto> \<lparr>url = ''L'', expires = 5\<rparr>, ''b'' \<mapsto> \<lparr>url = ''M'', expires = 9\<rparr>] ''z'' 7 =
     (('''', False), [''a'' \<mapsto> \<lparr>url = ''L'', expires = 5\<rparr>, ''b'' \<mapsto> \<lparr>url = ''M'', expires = 9\<rparr>],
      [MuLock, MapRead ''z'', MuUnlock])"
proof -
  let ?c = "[''a'' \<mapsto> \<lparr>url = ''L'', expires = 5\<rparr>, ''b'' \<mapsto> \<lparr>url = ''M'', expires = 9\<rparr>]"
  have e: "?c(''a'' := None) = [''b'' \<mapsto> \<lparr>url = ''M'', expires = 9\<rparr>]"
    by (rule ext) simp
  from C3_get_frame [of ?c "''a''" "\<lparr>url = ''L'', expires = 5\<rparr>" 7]
    C3_get_frame [of ?c "''b''" "\<lparr>url = ''M'', expires = 9\<rparr>" 7]
    C3_get_frame [of ?c "''z''" "\<lparr>url = ''L'', expires = 5\<rparr>" 7]
  show ?thesis using e by simp
qed

section \<open>Properties of token generation\<close>

text \<open>
  C8, as the claim states it, fails: when the random source fails, \<^verbatim>\<open>randomToken\<close> returns
  the decimal timestamp and does nothing else, and \<^verbatim>\<open>set\<close> stores it like any token; no
  effect of either is a log line or any other flag.
\<close>

theorem C8_fallback_not_flagged_counterexample:
  "randomToken 12 RandFail 1700000000000000000 = (''1700000000000000000'', [])
   \<and> \<not> list_ex is_log (snd (randomToken 12 RandFail 1700000000000000000))
   \<and> \<not> list_ex is_log (snd (snd (linkCache_set newLinkCache ''L'' RandFail 1700000000000000000 1000)))"
  by (simp add: randomToken_fail linkCache_set_def sprintf_d_def decimal_nat.simps
      digit_char_def is_log_def)

text \<open>
  C8, amended: the token is the decimal timestamp exactly when the random source fails,
  and the URL-safe base64 of the random bytes otherwise; neither \<^verbatim>\<open>randomToken\<close> nor
  \<^verbatim>\<open>set\<close> flags or logs the fallback, on any input; and \<^verbatim>\<open>set\<close> still succeeds with the
  fallback token: the entry is stored under it and a \<^verbatim>\<open>get\<close> finds it.
\<close>

theorem C8_fallback_token_silent:
  "fst (randomToken n RandFail un) = sprintf_d un
   \<and> fst (randomToken n (RandBytes bs) un) = EncodeToString (take n (bs @ replicate n (CHR 0x00)))
   \<and> \<not> list_ex is_log (snd (randomToken n src un))
   \<and> \<not> list_ex is_log (snd (snd (linkCache_set c u src un t0)))
   \<and> fst (linkCache_set c u RandFail un t0) = sprintf_d un
   \<and> fst (snd (linkCache_set c u RandFail un t0)) (sprintf_d un)
        = Some \<lparr>url = u, expires = t0 + cacheTTL\<rparr>
   \<and> fst (linkCache_get (fst (snd (linkCache_set c u RandFail un t0))) (sprintf_d un) t0)
        = (u, True)"
proof -
  have s: "snd (randomToken m src un) = []" for m
    by (rule randomToken_silent)
  have l: "\<not> list_ex is_log (snd (snd (linkCache_set c u src un t0)))"
    using s [of 12] by (cases "randomToken 12 src un") (simp add: linkCache_set_def is_log_def)
  have g: "fst (linkCache_get (fst (snd (linkCache_set c u RandFail un t0))) (sprintf_d un) t0)
        = (u, True)"
    by (simp add: linkCache_set_def randomToken_fail linkCache_get_def cacheTTL_def)
  show ?thesis
    using l g by (simp add: randomToken_fail randomToken_bytes s linkCache_set_def)
qed

theorem C8_fallback_token_silent_witness:
  "fst (randomToken 12 RandFail 1700000000000000000) = ''1700000000000000000''
   \<and> fst (randomToken 12 (RandBytes ''abcdefghijkl'') 1700000000000000000) = ''YWJjZGVmZ2hpamts''
   \<and> fst (linkCache_get
        (fst (snd (linkCache_set newLinkCache ''L'' RandFail 1700000000000000000 1000)))
        ''1700000000000000000'' 1000) = (''L'', True)"
proof -
  have d: "sprintf_d 1700000000000000000 = ''1700000000000000000''"
    by (simp add: sprintf_d_def decimal_nat.simps digit_char_def)
  have e: "EncodeToString (take 12 (''abcdefghijkl'' @ replicate 12 (CHR 0x00))) = ''YWJjZGVmZ2hpamts''"
    by (simp add: enc64_def encodeURL_def)
  from C8_fallback_token_silent [of 12 1700000000000000000 "''abcdefghijkl''" RandFail
      newLinkCache "''L''" 1000]
  show ?thesis unfolding d e by simp
qed

section \<open>Properties of the photo batches\<close>

lemma media_items_Media: "map Media (media_items idx chunk caption) = chunk"
  by (induction chunk arbitrary: idx) (simp_all add: Let_def)

lemma media_items_length: "length (media_items idx chunk caption) = length chunk"
  by (induction chunk arbitrary: idx) (simp_all add: Let_def)

lemma media_items_Caption:
  "j < length chunk \<Longrightarrow>
     Caption (media_items idx chunk caption ! j) = (if idx + j = 0 then caption else '''')"
proof (induction chunk arbitrary: idx j)
  case Nil
  then show ?case by simp
next
  case (Cons u chunk)
  show ?case
  proof (cases j)
    case 0
    then show ?thesis by (simp add: Let_def)
  next
    case (Suc j')
    with Cons.prems have "j' < length chunk" by simp
    from Cons.IH [OF this, of "idx + 1"] Suc show ?thesis by (simp add: Let_def)
  qed
qed

lemma groups_unfold:
  "media_groups (sendPhotoGroups_from i chatID urls caption) =
     (if i < length urls
      then media_items 0 (take 10 (drop i urls)) caption
             # media_groups (sendPhotoGroups_from (i + 10) chatID urls caption)
      else [])"
proof (cases "i < length urls")
  case True
  have "take (min (i + 10) (length urls) - i) (drop i urls) = take 10 (drop i urls)"
    by (cases "i + 10 \<le> length urls") (simp_all add: min_def)
  then have "take ((if length urls < i + 10 then length urls else i + 10) - i) (drop i urls)
      = take 10 (drop i urls)"
    by (simp add: min_def not_less split: if_splits)
  with True show ?thesis
    by (subst sendPhotoGroups_from.simps) (simp add: groupSize_def Let_def)
next
  case False
  then show ?thesis by (subst sendPhotoGroups_from.simps) simp
qed

lemma groups_all_send:
  "sendPhotoGroups_from i chatID urls caption =
     map (SendMediaGroup chatID) (media_groups (sendPhotoGroups_from i chatID urls caption))"
proof (induction i chatID urls caption rule: sendPhotoGroups_from.induct)
  case (1 i chatID urls caption)
  show ?case
  proof (cases "i < length urls")
    case True
    from "1.IH" [OF True refl refl refl refl]
    show ?thesis
      using True by (subst (1 2) sendPhotoGroups_from.simps) (simp add: Let_def)
  next
    case False
    then show ?thesis by (subst (1 2) sendPhotoGroups_from.simps) simp
  qed
qed

lemma groups_length:
  "length (media_groups (sendPhotoGroups_from i chatID urls caption)) = (length urls - i + 9) div 10"
proof (induction i chatID urls caption rule: sendPhotoGroups_from.induct)
  case (1 i chatID urls caption)
  show ?case
  proof (cases "i < length urls")
    case True
    from "1.IH" [OF True refl refl refl refl]
    have "length (media_groups (sendPhotoGroups_from (i + 10) chatID urls caption))
        = (length urls - (i + 10) + 9) div 10"
      by (simp add: groupSize_def)
    moreover have "Suc ((length urls - (i + 10) + 9) div 10) = (length urls - i + 9) div 10"
      using True by (cases "i + 10 \<le> length urls") simp_all
    ultimately show ?thesis
      using True by (subst groups_unfold) simp
  next
    case False
    then show ?thesis by (subst groups_unfold) simp
  qed
qed

lemma groups_nth:
  "k < length (media_groups (sendPhotoGroups_from i chatID urls caption)) \<Longrightarrow>
     media_groups (sendPhotoGroups_from i chatID urls caption) ! k
       = media_items 0 (take 10 (drop (i + 10 * k) urls)) caption"
proof (induction k arbitrary: i)
  case 0
  then have "i < length urls"
    by (subst (asm) groups_unfold) (simp split: if_splits)
  then show ?case by (subst groups_unfold) simp
next
  case (Suc k)
  from Suc.prems have i: "i < length urls"
    by (subst (asm) groups_unfold) (simp split: if_splits)
  from Suc.prems i have "k < length (media_groups (sendPhotoGroups_from (i + 10) chatID urls caption))"
    by (subst (asm) groups_unfold) simp
  from Suc.IH [OF this] i show ?case
    by (subst groups_unfold) (simp add: add.assoc)
qed

lemma groups_concat:
  "concat (map (map Media) (media_groups (sendPhotoGroups_from i chatID urls caption)))
     = drop i urls"
proof (induction i chatID urls caption rule: sendPhotoGroups_from.induct)
  case (1 i chatID urls caption)
  show ?case
  proof (cases "i < length urls")
    case True
    from "1.IH" [OF True refl refl refl refl]
    have "concat (map (map Media) (media_groups (sendPhotoGroups_from (i + 10) chatID urls caption)))
        = drop (i + 10) urls"
      by (simp add: groupSize_def)
    moreover have "take 10 (drop i urls) @ drop (i + 10) urls = drop i urls"
      using append_take_drop_id [of 10 "drop i urls"] by (simp add: add.commute)
    ultimately show ?thesis
      using True by (subst groups_unfold) (simp add: media_items_Media)
  next
    case False
    then show ?thesis by (subst groups_unfold) simp
  qed
qed

lemma batch_index_bounds:
  fixes k n :: nat
  assumes "k < (n + 9) div 10"
  shows "10 * k < n"
    and "Suc k < (n + 9) div 10 \<Longrightarrow> 10 * k + 10 \<le> n"
    and "Suc k = (n + 9) div 10 \<Longrightarrow> n \<le> 10 * k + 10"
proof -
  from assms have "Suc k \<le> (n + 9) div 10" by simp
  then have "Suc k * 10 \<le> n + 9" by (simp only: less_eq_div_iff_mult_less_eq zero_less_numeral)
  then show "10 * k < n" by simp
next
  assume "Suc k < (n + 9) div 10"
  then have "Suc (Suc k) \<le> (n + 9) div 10" by simp
  then have "Suc (Suc k) * 10 \<le> n + 9" by (simp only: less_eq_div_iff_mult_less_eq zero_less_numeral)
  then show "10 * k + 10 \<le> n" by simp
next
  assume "Suc k = (n + 9) div 10"
  then have "(n + 9) div 10 < Suc (Suc k)" by simp
  then have "n + 9 < Suc (Suc k) * 10" by (simp only: div_less_iff_less_mult zero_less_numeral)
  then show "n \<le> 10 * k + 10" by simp
qed

text \<open>
  C6: \<^verbatim>\<open>sendPhotoGroups\<close> makes one \<^verbatim>\<open>SendMediaGroup\<close> call per batch and nothing else. The
  batches are consecutive slices of the URLs, in order and with nothing lost: every batch
  but the last holds exactly 10, the last holds what is left (between 1 and 10), so 23
  URLs go out as 10, 10 and 3. In each batch the first item carries the caption and no
  other item carries one.
\<close>

theorem C6_photo_batches:
  assumes gs: "gs = media_groups (sendPhotoGroups chatID urls caption)"
  shows "sendPhotoGroups chatID urls caption = map (SendMediaGroup chatID) gs
    \<and> concat (map (map Media) gs) = urls
    \<and> length gs = (length urls + 9) div 10
    \<and> (\<forall>k<length gs.
          map Media (gs ! k) = take 10 (drop (10 * k) urls)
        \<and> (k + 1 < length gs \<longrightarrow> length (gs ! k) = 10)
        \<and> (k + 1 = length gs \<longrightarrow>
              length (gs ! k) = length urls - 10 * k \<and> 0 < length (gs ! k) \<and> length (gs ! k) \<le> 10)
        \<and> Caption (gs ! k ! 0) = caption
        \<and> (\<forall>j<length (gs ! k). 0 < j \<longrightarrow> Caption (gs ! k ! j) = ''''))
    \<and> (length urls = 23 \<longrightarrow> map length gs = [10, 10, 3])"
proof -
  have send: "sendPhotoGroups chatID urls caption = map (SendMediaGroup chatID) gs"
    unfolding gs sendPhotoGroups_def by (rule groups_all_send)
  have cat: "concat (map (map Media) gs) = urls"
    unfolding gs sendPhotoGroups_def by (simp add: groups_concat)
  have len: "length gs = (length urls + 9) div 10"
    unfolding gs sendPhotoGroups_def by (simp add: groups_length)
  have nth: "gs ! k = media_items 0 (take 10 (drop (10 * k) urls)) caption" if "k < length gs" for k
    using that groups_nth [of k 0 chatID urls caption] unfolding gs sendPhotoGroups_def by simp
  have size: "length (gs ! k) = min 10 (length urls - 10 * k)" if "k < length gs" for k
    by (simp add: nth [OF that] media_items_length min.commute)
  have each: "map Media (gs ! k) = take 10 (drop (10 * k) urls)
        \<and> (k + 1 < length gs \<longrightarrow> length (gs ! k) = 10)
        \<and> (k + 1 = length gs \<longrightarrow>
              length (gs ! k) = length urls - 10 * k \<and> 0 < length (gs ! k) \<and> length (gs ! k) \<le> 10)
        \<and> Caption (gs ! k ! 0) = caption
        \<and> (\<forall>j<length (gs ! k). 0 < j \<longrightarrow> Caption (gs ! k ! j) = '''')"
    if k: "k < length gs" for k
  proof -
    from k len have k': "k < (length urls + 9) div 10" by simp
    note b = batch_index_bounds [OF k']
    have pos: "0 < length (gs ! k)" using b(1) by (simp add: size [OF k])
    have full: "k + 1 < length gs \<longrightarrow> length (gs ! k) = 10"
    proof
      assume "k + 1 < length gs"
      then have "Suc k < (length urls + 9) div 10" using len by simp
      from b(2) [OF this] show "length (gs ! k) = 10" by (simp add: size [OF k])
    qed
    have rest: "k + 1 = length gs \<longrightarrow>
        length (gs ! k) = length urls - 10 * k \<and> 0 < length (gs ! k) \<and> length (gs ! k) \<le> 10"
    proof
      assume "k + 1 = length gs"
      then have "Suc k = (length urls + 9) div 10" using len by simp
      from b(3) [OF this] have "length (gs ! k) = length urls - 10 * k"
        by (simp add: size [OF k])
      moreover have "length (gs ! k) \<le> 10" by (simp add: size [OF k])
      ultimately show "length (gs ! k) = length urls - 10 * k \<and> 0 < length (gs ! k)
          \<and> length (gs ! k) \<le> 10"
        using pos by simp
    qed
    have cap: "Caption (gs ! k ! j) = (if j = 0 then caption else '''')" if "j < length (gs ! k)" for j
    proof -
      from that have "j < length (take 10 (drop (10 * k) urls))"
        by (simp add: nth [OF k] media_items_length)
      from media_items_Caption [OF this, of 0 caption] show ?thesis
        by (simp add: nth [OF k])
    qed
    have med: "map Media (gs ! k) = take 10 (drop (10 * k) urls)"
      by (simp add: nth [OF k] media_items_Media)
    have cap0: "Caption (gs ! k ! 0) = caption"
      using cap [OF pos] by simp
    have capj: "\<forall>j<length (gs ! k). 0 < j \<longrightarrow> Caption (gs ! k ! j) = ''''"
      using cap by simp
    show ?thesis
      by (intro conjI) (fact med full rest cap0 capj)+
  qed
  have all: "\<forall>k<length gs.
          map Media (gs ! k) = take 10 (drop (10 * k) urls)
        \<and> (k + 1 < length gs \<longrightarrow> length (gs ! k) = 10)
        \<and> (k + 1 = length gs \<longrightarrow>
              length (gs ! k) = length urls - 10 * k \<and> 0 < length (gs ! k) \<and> length (gs ! k) \<le> 10)
        \<and> Caption (gs ! k ! 0) = caption
        \<and> (\<forall>j<length (gs ! k). 0 < j \<longrightarrow> Caption (gs ! k ! j) = '''')"
  proof (intro allI impI)
    fix k assume "k < length gs"
    then show "map Media (gs ! k) = take 10 (drop (10 * k) urls)
        \<and> (k + 1 < length gs \<longrightarrow> length (gs ! k) = 10)
        \<and> (k + 1 = length gs \<longrightarrow>
              length (gs ! k) = length urls - 10 * k \<and> 0 < length (gs ! k) \<and> length (gs ! k) \<le> 10)
        \<and> Caption (gs ! k ! 0) = caption
        \<and> (\<forall>j<length (gs ! k). 0 < j \<longrightarrow> Caption (gs ! k ! j) = '''')"
      by (rule each)
  qed
  have ex: "length urls = 23 \<longrightarrow> map length gs = [10, 10, 3]"
  proof
    assume n: "length urls = 23"
    have l3: "length gs = 3" by (simp add: len n)
    have s0: "length (gs ! 0) = 10" and s1: "length (gs ! 1) = 10" and s2: "length (gs ! 2) = 3"
      by (simp_all add: size l3 n)
    from l3 obtain a b c where abc: "gs = [a, b, c]"
      by (auto simp: numeral_3_eq_3 length_Suc_conv)
    from s0 s1 s2 show "map length gs = [10, 10, 3]"
      unfolding abc by simp
  qed
  show ?thesis
    by (intro conjI) (fact send cat len all ex)+
qed

theorem C6_photo_batches_witness:
  "map length (media_groups (sendPhotoGroups 7 (replicate 23 ''u'') ''cap'')) = [10, 10, 3]
   \<and> length (media_groups (sendPhotoGroups 7 (replicate 23 ''u'') ''cap'')) = 3
   \<and> concat (map (map Media) (media_groups (sendPhotoGroups 7 (replicate 23 ''u'') ''cap'')))
        = replicate 23 ''u''
   \<and> Caption (media_groups (sendPhotoGroups 7 (replicate 23 ''u'') ''cap'') ! 2 ! 0) = ''cap''
   \<and> Caption (media_groups (sendPhotoGroups 7 (replicate 23 ''u'') ''cap'') ! 2 ! 1) = ''''
   \<and> Caption (media_groups (sendPhotoGroups 7 (replicate 23 ''u'') ''cap'') ! 2 ! 2) = ''''"
proof -
  let ?gs = "media_groups (sendPhotoGroups 7 (replicate 23 ''u'') ''cap'')"
  note t = C6_photo_batches [of ?gs 7 "replicate 23 ''u''" "''cap''", OF refl]
  from t have len: "length ?gs = 3" by simp
  from t have ls: "map length ?gs = [10, 10, 3]" by simp
  from t have cat: "concat (map (map Media) ?gs) = replicate 23 ''u''" by (rule conjunct1 [OF conjunct2])
  have "map length ?gs ! 2 = length (?gs ! 2)" using len by (intro nth_map) simp
  with ls have l2: "length (?gs ! 2) = 3" by simp
  from t have "\<forall>k<length ?gs. Caption (?gs ! k ! 0) = ''cap''
      \<and> (\<forall>j<length (?gs ! k). 0 < j \<longrightarrow> Caption (?gs ! k ! j) = '''')"
    by blast
  with len have k2: "Caption (?gs ! 2 ! 0) = ''cap''
      \<and> (\<forall>j<length (?gs ! 2). 0 < j \<longrightarrow> Caption (?gs ! 2 ! j) = '''')"
    by simp
  with l2 have c1: "Caption (?gs ! 2 ! 1) = ''''" and c2: "Caption (?gs ! 2 ! 2) = ''''" by simp_all
  from k2 have c0: "Caption (?gs ! 2 ! 0) = ''cap''" by (rule conjunct1)
  show ?thesis
    by (intro conjI) (fact ls len cat c0 c1 c2)+
qed

section \<open>Properties of the media fetcher\<close>

lemma completion_order_set: "set (completion_order picks ts) = set ts"
proof (induction picks ts rule: completion_order.induct)
  case (1 picks)
  show ?case by (simp add: completion_order.simps)
next
  case (2 picks t ts)
  define xs where "xs = t # ts"
  define k where "k = (case picks of [] \<Rightarrow> 0 | p # ps \<Rightarrow> p mod length xs)"
  have k: "k < length xs"
    unfolding k_def xs_def by (cases picks) simp_all
  have unf: "completion_order picks xs
      = xs ! k # completion_order (tl picks) (take k xs @ drop (Suc k) xs)"
    unfolding k_def xs_def by (simp only: completion_order.simps Let_def)
  have ih: "set (completion_order (tl picks) (take k xs @ drop (Suc k) xs))
      = set (take k xs @ drop (Suc k) xs)"
    unfolding k_def xs_def by (rule "2.IH" [OF refl])
  have "set (take k xs @ xs ! k # drop (Suc k) xs) = set xs"
    by (simp only: id_take_nth_drop [OF k, symmetric])
  then have "insert (xs ! k) (set (take k xs @ drop (Suc k) xs)) = set xs"
    by simp
  then have "set (completion_order picks xs) = set xs"
    by (simp only: unf list.set ih)
  then show ?case unfolding xs_def .
qed

lemma spawn_tasks_set:
  "set (spawn_tasks urls a) = insert (AudioTask a) {ImageTask i (urls ! i) | i. i < length urls}"
proof -
  have "(\<lambda>(i, u). ImageTask i u) ` set (enumerate 0 urls)
      = {ImageTask i (urls ! i) | i. i < length urls}"
  proof (intro set_eqI iffI)
    fix t assume "t \<in> (\<lambda>(i, u). ImageTask i u) ` set (enumerate 0 urls)"
    then obtain i u where "(i, u) \<in> set (enumerate 0 urls)" and t: "t = ImageTask i u" by auto
    then have "i < length urls" and "urls ! i = u" by (simp_all add: in_set_enumerate_eq)
    with t show "t \<in> {ImageTask i (urls ! i) | i. i < length urls}" by auto
  next
    fix t assume "t \<in> {ImageTask i (urls ! i) | i. i < length urls}"
    then obtain i where i: "i < length urls" and t: "t = ImageTask i (urls ! i)" by auto
    from i have "(i, urls ! i) \<in> set (enumerate 0 urls)" by (simp add: in_set_enumerate_eq)
    then have "(\<lambda>(i, u). ImageTask i u) (i, urls ! i) \<in> (\<lambda>(i, u). ImageTask i u) ` set (enumerate 0 urls)"
      by (rule imageI)
    with t show "t \<in> (\<lambda>(i, u). ImageTask i u) ` set (enumerate 0 urls)" by simp
  qed
  then show ?thesis by (simp add: spawn_tasks_def)
qed

lemma run_task_audio: "run_task net (bufs, aud) (AudioTask u) = (bufs, fst (downloadToMem net u))"
  by (simp add: run_task_def)

lemma run_task_image:
  "run_task net (bufs, aud) (ImageTask j u) = (bufs[j := fst (downloadToMem net u)], aud)"
  by (simp add: run_task_def)

lemma foldl_run_task:
  assumes "set order \<subseteq> insert (AudioTask a) {ImageTask i (urls ! i) | i. i < length urls}"
    and "length bufs = length urls"
  shows "length (fst (foldl (run_task net) (bufs, aud) order)) = length urls
    \<and> (\<forall>i<length urls. fst (foldl (run_task net) (bufs, aud) order) ! i
          = (if ImageTask i (urls ! i) \<in> set order then fst (downloadToMem net (urls ! i))
             else bufs ! i))
    \<and> snd (foldl (run_task net) (bufs, aud) order)
          = (if AudioTask a \<in> set order then fst (downloadToMem net a) else aud)"
  using assms
proof (induction order arbitrary: bufs aud)
  case Nil
  then show ?case by simp
next
  case (Cons t order)
  from Cons.prems(1) have sub: "set order \<subseteq> insert (AudioTask a) {ImageTask i (urls ! i) | i. i < length urls}"
    by simp
  from Cons.prems(1) have t: "t = AudioTask a \<or> (\<exists>j<length urls. t = ImageTask j (urls ! j))"
    by auto
  show ?case
  proof (cases "t = AudioTask a")
    case True
    from Cons.IH [OF sub Cons.prems(2), of "fst (downloadToMem net a)"]
    show ?thesis by (simp add: True run_task_audio)
  next
    case False
    with t obtain j where j: "j < length urls" and tj: "t = ImageTask j (urls ! j)" by auto
    let ?b = "bufs[j := fst (downloadToMem net (urls ! j))]"
    have lb: "length ?b = length urls" using Cons.prems(2) by simp
    note ih = Cons.IH [OF sub lb, of aud]
    have nth: "?b ! i = (if i = j then fst (downloadToMem net (urls ! j)) else bufs ! i)"
      if "i < length urls" for i
      using that Cons.prems(2) by (simp add: nth_list_update)
    have "fst (foldl (run_task net) (?b, aud) order) ! i
          = (if ImageTask i (urls ! i) \<in> set (t # order) then fst (downloadToMem net (urls ! i))
             else bufs ! i)" if i: "i < length urls" for i
    proof -
      from ih i have "fst (foldl (run_task net) (?b, aud) order) ! i
          = (if ImageTask i (urls ! i) \<in> set order then fst (downloadToMem net (urls ! i))
             else ?b ! i)" by blast
      then show ?thesis unfolding nth [OF i] tj by auto
    qed
    moreover from ih have "length (fst (foldl (run_task net) (?b, aud) order)) = length urls"
      by blast
    moreover from ih have "snd (foldl (run_task net) (?b, aud) order)
          = (if AudioTask a \<in> set (t # order) then fst (downloadToMem net a) else aud)"
      unfolding tj by simp
    ultimately show ?thesis by (simp add: tj run_task_image)
  qed
qed

lemma fetchAll_eq:
  "fetchAll net picks urls a =
     (map (\<lambda>u. fst (downloadToMem net u)) urls,
      fst (downloadToMem net a),
      map (\<lambda>t. HttpGet (task_url t)) (completion_order picks (spawn_tasks urls a)))"
proof -
  let ?order = "completion_order picks (spawn_tasks urls a)"
  let ?st = "foldl (run_task net) (replicate (length urls) None, None) ?order"
  have s: "set ?order = insert (AudioTask a) {ImageTask i (urls ! i) | i. i < length urls}"
    by (simp only: completion_order_set spawn_tasks_set)
  then have sub: "set ?order \<subseteq> insert (AudioTask a) {ImageTask i (urls ! i) | i. i < length urls}"
    by simp
  note f = foldl_run_task [OF sub, of "replicate (length urls) None" net None, simplified]
  from f have len: "length (fst ?st) = length urls" by blast
  have "fst ?st ! i = fst (downloadToMem net (urls ! i))" if i: "i < length urls" for i
  proof -
    from i s have "ImageTask i (urls ! i) \<in> set ?order" by blast
    with f i show ?thesis by simp
  qed
  with len have imgs: "fst ?st = map (\<lambda>u. fst (downloadToMem net u)) urls"
    by (intro nth_equalityI) simp_all
  from s have "AudioTask a \<in> set ?order" by blast
  with f have aud: "snd ?st = fst (downloadToMem net a)" by simp
  have "?st = (map (\<lambda>u. fst (downloadToMem net u)) urls, fst (downloadToMem net a))"
    using imgs aud by (simp add: prod_eq_iff)
  then show ?thesis by (simp add: fetchAll_def)
qed



lemma makeVideo_no_audio:
  assumes "fst (downloadToMem net a) = None"
  shows "makeVideo net picks proc urls a d =
     \<lparr>returned = (None, Some ''failed to download audio''),
      main_fx = map (\<lambda>t. HttpGet (task_url t)) (completion_order picks (spawn_tasks urls a)),
      img_writer_fx = [], aud_writer_fx = []\<rparr>"
  using assms by (simp add: makeVideo_def fetchAll_eq)

lemma makeVideo_start_failed:
  assumes "fst (downloadToMem net a) = Some aud" and "start_error proc = Some err"
  shows "makeVideo net picks proc urls a d =
     \<lparr>returned = (None, Some err),
      main_fx = map (\<lambda>t. HttpGet (task_url t)) (completion_order picks (spawn_tasks urls a))
        @ [OsPipe ImgWriter, OsPipe AudWriter, CmdStart (frameRate urls d)],
      img_writer_fx = [], aud_writer_fx = []\<rparr>"
  using assms by (simp add: makeVideo_def fetchAll_eq)

lemma makeVideo_started:
  assumes "fst (downloadToMem net a) = Some aud" and "start_error proc = None"
  shows "makeVideo net picks proc urls a d =
     \<lparr>returned =
        (case wait_error proc of
           Some err \<Rightarrow> (None, Some (''ffmpeg: '' @ err @ '', stderr: '' @ proc_stderr proc))
         | None \<Rightarrow> (Some (proc_stdout proc), None)),
      main_fx = map (\<lambda>t. HttpGet (task_url t)) (completion_order picks (spawn_tasks urls a))
        @ [OsPipe ImgWriter, OsPipe AudWriter, CmdStart (frameRate urls d),
           GoImgWriter, GoAudWriter, CmdWait],
      img_writer_fx = imgWriter_routine (map (\<lambda>u. fst (downloadToMem net u)) urls),
      aud_writer_fx = audWriter_routine aud\<rparr>"
  using assms by (simp add: makeVideo_def fetchAll_eq)

section \<open>Properties of the traces\<close>





lemma weave_no_go:
  "GoImgWriter \<notin> set xs \<Longrightarrow> GoAudWriter \<notin> set xs \<Longrightarrow> weave xs iw aw = [xs]"
  by (induction xs) auto



lemma fetch_fx_quiet:
  "e \<in> set (map (\<lambda>t. HttpGet (task_url t)) order) \<Longrightarrow>
     e \<noteq> GoImgWriter \<and> e \<noteq> GoAudWriter \<and> \<not> is_write e \<and> \<not> is_start e \<and> \<not> on_pipe p e"
  by (auto simp: is_write_def is_start_def on_pipe_def)








section \<open>Properties of the compositor\<close>

lemma fetch_fx_filter:
  "filter is_start (map (\<lambda>t. HttpGet (task_url t)) order) = []"
  "filter is_write (map (\<lambda>t. HttpGet (task_url t)) order) = []"
  "filter (on_pipe p) (map (\<lambda>t. HttpGet (task_url t)) order) = []"
  using fetch_fx_quiet [of _ order] by (simp_all only: filter_empty_conv) blast+

lemma fetch_fx_no_go:
  "GoImgWriter \<notin> set (map (\<lambda>t. HttpGet (task_url t)) order)"
  "GoAudWriter \<notin> set (map (\<lambda>t. HttpGet (task_url t)) order)"
  using fetch_fx_quiet [of _ order] by blast+

lemma list_ex_filter: "list_ex P xs \<longleftrightarrow> filter P xs \<noteq> []"
  by (simp add: list_ex_iff filter_empty_conv)

text \<open>
  C4: when the audio buffer is absent after the barrier, \<^verbatim>\<open>makeVideo\<close> returns no bytes
  and the error "failed to download audio", whatever the image downloads gave; the run has
  a single trace, the downloads alone: no trace starts the encoder, starts a writer or
  writes to a pipe.
\<close>

theorem C4_no_audio_no_encoder:
  assumes "fst (snd (fetchAll net picks imageURLs audioURL)) = None"
  shows "returned (makeVideo net picks proc imageURLs audioURL duration)
        = (None, Some ''failed to download audio'')
    \<and> video_traces (makeVideo net picks proc imageURLs audioURL duration)
        = [map (\<lambda>t. HttpGet (task_url t)) (completion_order picks (spawn_tasks imageURLs audioURL))]
    \<and> (\<forall>tr\<in>set (video_traces (makeVideo net picks proc imageURLs audioURL duration)).
          \<not> list_ex is_start tr \<and> \<not> list_ex is_write tr
        \<and> GoImgWriter \<notin> set tr \<and> GoAudWriter \<notin> set tr)"
proof -
  let ?F = "map (\<lambda>t. HttpGet (task_url t)) (completion_order picks (spawn_tasks imageURLs audioURL))"
  from assms have a: "fst (downloadToMem net audioURL) = None"
    by (simp add: fetchAll_eq)
  note m = makeVideo_no_audio [OF a, of picks proc imageURLs duration]
  have r: "returned (makeVideo net picks proc imageURLs audioURL duration)
        = (None, Some ''failed to download audio'')"
    by (simp add: m)
  have t: "video_traces (makeVideo net picks proc imageURLs audioURL duration) = [?F]"
    by (simp add: m video_traces_def weave_no_go [OF fetch_fx_no_go])
  have q: "\<not> list_ex is_start ?F \<and> \<not> list_ex is_write ?F
      \<and> GoImgWriter \<notin> set ?F \<and> GoAudWriter \<notin> set ?F"
    using fetch_fx_no_go [of "completion_order picks (spawn_tasks imageURLs audioURL)"]
    by (simp add: list_ex_filter fetch_fx_filter)
  show ?thesis unfolding t using r q by simp
qed


text \<open>
  C7: the frame rate is the number of images divided by the duration, with 10 in place of
  a duration that is zero or negative: 5 images give 1/2 with duration 10 and with
  duration 0. It is the rate the encoder is started with, whenever the run gets that far
  (the audio buffer is present).
\<close>

theorem C7_frame_rate:
  "frameRate imageURLs duration
      = real (length imageURLs) / real_of_int (if duration \<le> 0 then 10 else duration)
   \<and> (length imageURLs = 5 \<longrightarrow> frameRate imageURLs 10 = 1 / 2 \<and> frameRate imageURLs 0 = 1 / 2)
   \<and> (fst (snd (fetchAll net picks imageURLs audioURL)) \<noteq> None \<longrightarrow>
        filter is_start (main_fx (makeVideo net picks proc imageURLs audioURL duration))
          = [CmdStart (frameRate imageURLs duration)])"
proof -
  have 1: "frameRate imageURLs duration
      = real (length imageURLs) / real_of_int (if duration \<le> 0 then 10 else duration)"
    by (simp add: frameRate_def)
  have 2: "length imageURLs = 5 \<longrightarrow> frameRate imageURLs 10 = 1 / 2 \<and> frameRate imageURLs 0 = 1 / 2"
    by (simp add: frameRate_def)
  have 3: "fst (snd (fetchAll net picks imageURLs audioURL)) \<noteq> None \<longrightarrow>
        filter is_start (main_fx (makeVideo net picks proc imageURLs audioURL duration))
          = [CmdStart (frameRate imageURLs duration)]"
  proof
    assume "fst (snd (fetchAll net picks imageURLs audioURL)) \<noteq> None"
    then obtain aud where aud: "fst (downloadToMem net audioURL) = Some aud"
      by (auto simp: fetchAll_eq)
    show "filter is_start (main_fx (makeVideo net picks proc imageURLs audioURL duration))
          = [CmdStart (frameRate imageURLs duration)]"
    proof (cases "start_error proc")
      case None
      show ?thesis
        by (simp add: makeVideo_started [OF aud None] fetch_fx_filter is_start_def)
    next
      case (Some err)
      show ?thesis
        by (simp add: makeVideo_start_failed [OF aud Some] fetch_fx_filter is_start_def)
    qed
  qed
  from 1 2 3 show ?thesis by (intro conjI)
qed



theorem C4_no_audio_no_encoder_witness:
  "fst (snd (fetchAll (\<lambda>u. if u = ''a'' then HttpError else HttpBody ''B'' False)
              [1] [''i1'', ''i2''] ''a'')) = None
   \<and> returned (makeVideo (\<lambda>u. if u = ''a'' then HttpError else HttpBody ''B'' False) [1]
        \<lparr>start_error = None, wait_error = None, proc_stdout = ''V'', proc_stderr = ''''\<rparr>
        [''i1'', ''i2''] ''a'' 10) = (None, Some ''failed to download audio'')
   \<and> video_traces (makeVideo (\<lambda>u. if u = ''a'' then HttpError else HttpBody ''B'' False) [1]
        \<lparr>start_error = None, wait_error = None, proc_stdout = ''V'', proc_stderr = ''''\<rparr>
        [''i1'', ''i2''] ''a'' 10) = [[HttpGet ''i1'', HttpGet ''a'', HttpGet ''i2'']]"
proof -
  let ?net = "\<lambda>u. if u = ''a'' then HttpError else HttpBody ''B'' False"
  let ?proc = "\<lparr>start_error = None, wait_error = None, proc_stdout = ''V'', proc_stderr = ''''\<rparr>"
  have h: "fst (snd (fetchAll ?net [1] [''i1'', ''i2''] ''a'')) = None"
    by (simp add: fetchAll_eq downloadToMem_def)
  have co: "completion_order [1] (spawn_tasks [''i1'', ''i2''] ''a'')
      = [ImageTask 0 ''i1'', AudioTask ''a'', ImageTask 1 ''i2'']"
    by (simp add: completion_order.simps spawn_tasks_def)
  note inst = C4_no_audio_no_encoder [OF h, of ?proc 10]
  from inst have r: "returned (makeVideo ?net [1] ?proc [''i1'', ''i2''] ''a'' 10)
      = (None, Some ''failed to download audio'')"
    by (rule conjunct1)
  from inst have "video_traces (makeVideo ?net [1] ?proc [''i1'', ''i2''] ''a'' 10)
      = [map (\<lambda>t. HttpGet (task_url t)) (completion_order [1] (spawn_tasks [''i1'', ''i2''] ''a''))]"
    by (rule conjunct1 [OF conjunct2])
  then have t: "video_traces (makeVideo ?net [1] ?proc [''i1'', ''i2''] ''a'' 10)
      = [[HttpGet ''i1'', HttpGet ''a'', HttpGet ''i2'']]"
    unfolding co by (simp add: task_url_def)
  from h r t show ?thesis by (intro conjI)
qed


theorem C7_frame_rate_witness:
  "frameRate [''1'', ''2'', ''3'', ''4'', ''5''] 10 = 1 / 2
   \<and> frameRate [''1'', ''2'', ''3'', ''4'', ''5''] 0 = 1 / 2
   \<and> fst (snd (fetchAll (\<lambda>u. HttpBody ''B'' False) [] [''1'', ''2'', ''3'', ''4'', ''5''] ''a''))
        \<noteq> None
   \<and> filter is_start (main_fx (makeVideo (\<lambda>u. HttpBody ''B'' False) []
        \<lparr>start_error = None, wait_error = None, proc_stdout = ''V'', proc_stderr = ''''\<rparr>
        [''1'', ''2'', ''3'', ''4'', ''5''] ''a'' 0)) = [CmdStart (1 / 2)]"
proof -
  let ?net = "\<lambda>u::string. HttpBody ''B'' False"
  let ?proc = "\<lparr>start_error = None, wait_error = None, proc_stdout = ''V'', proc_stderr = ''''\<rparr>"
  let ?urls = "[''1'', ''2'', ''3'', ''4'', ''5'']"
  have h: "fst (snd (fetchAll ?net [] ?urls ''a'')) \<noteq> None"
    by (simp add: fetchAll_eq downloadToMem_def)
  have l: "length ?urls = 5" by simp
  note t10 = C7_frame_rate [of ?urls 10 ?net "[]" "''a''" ?proc]
  note t0 = C7_frame_rate [of ?urls 0 ?net "[]" "''a''" ?proc]
  from t0 l have r: "frameRate ?urls 10 = 1 / 2" and r0: "frameRate ?urls 0 = 1 / 2" by blast+
  from t0 h have "filter is_start (main_fx (makeVideo ?net [] ?proc ?urls ''a'' 0))
      = [CmdStart (frameRate ?urls 0)]" by blast
  then have f: "filter is_start (main_fx (makeVideo ?net [] ?proc ?urls ''a'' 0)) = [CmdStart (1 / 2)]"
    by (simp only: r0)
  from r r0 h f show ?thesis by (intro conjI)
qed


section \<open>Properties of the deep-link callback\<close>

lemma whiteSpace_nonempty: "p \<in> set whiteSpace \<Longrightarrow> p \<noteq> []"
  by (auto simp: whiteSpace_def)

lemma space_width_zero: "space_width s = 0 \<longleftrightarrow> (\<forall>p\<in>set whiteSpace. \<not> HasPrefix s p)"
proof (cases "find (HasPrefix s) whiteSpace")
  case None
  then have "\<forall>p\<in>set whiteSpace. \<not> HasPrefix s p" by (simp add: find_None_iff)
  with None show ?thesis by (simp add: space_width_def)
next
  case (Some p)
  then have "p \<in> set whiteSpace" and "HasPrefix s p"
    by (auto simp: find_Some_iff)
  with Some whiteSpace_nonempty [of p] show ?thesis
    by (auto simp: space_width_def)
qed

lemma space_width_last_zero:
  "space_width_last s = 0 \<longleftrightarrow> (\<forall>p\<in>set whiteSpace. \<not> HasSuffix s p)"
proof (cases "find (HasSuffix s) whiteSpace")
  case None
  then have "\<forall>p\<in>set whiteSpace. \<not> HasSuffix s p" by (simp add: find_None_iff)
  with None show ?thesis by (simp add: space_width_last_def)
next
  case (Some p)
  then have "p \<in> set whiteSpace" and "HasSuffix s p"
    by (auto simp: find_Some_iff)
  with Some whiteSpace_nonempty [of p] show ?thesis
    by (auto simp: space_width_last_def)
qed

lemma HasPrefix_append: "HasPrefix xs p \<Longrightarrow> HasPrefix (xs @ ys) p"
  by (simp add: HasPrefix_def)

lemma space_width_append_zero: "space_width (xs @ ys) = 0 \<Longrightarrow> space_width xs = 0"
  unfolding space_width_zero using HasPrefix_append by blast

lemma HasSuffix_drop: "HasSuffix s p \<Longrightarrow> HasPrefix (drop (length s - length p) s) p"
  by (simp add: HasSuffix_def HasPrefix_def)

lemma fields_scan_space_free:
  assumes "f \<in> set (fields_scan cur s)"
    and "\<And>acc. cur = Some acc \<Longrightarrow> acc \<noteq> [] \<and> (\<forall>n<length acc. space_width (drop n acc @ s) = 0)"
  shows "space_free f"
  using assms
proof (induction cur s rule: fields_scan.induct)
  case (1 cur)
  then show ?case
    by (cases cur) (auto simp: space_free_def)
next
  case (2 cur c r)
  let ?acc = "case cur of None \<Rightarrow> [] | Some f \<Rightarrow> f"
  show ?case
  proof (cases "space_width (c # r) = 0")
    case True
    with "2.prems"(1) have mem: "f \<in> set (fields_scan (Some (?acc @ [c])) r)"
      by (simp add: Let_def)
    have inv: "space_width (drop n (?acc @ [c]) @ r) = 0" if n: "n < length (?acc @ [c])" for n
    proof (cases "n < length ?acc")
      case True
      then obtain acc where cur: "cur = Some acc" by (cases cur) auto
      with True "2.prems"(2) [OF cur] show ?thesis by simp
    next
      case False
      with n have "n = length ?acc" by simp
      then show ?thesis using \<open>space_width (c # r) = 0\<close> by simp
    qed
    show ?thesis
    proof (rule "2.IH"(1) [OF refl True mem])
      fix acc assume "Some (?acc @ [c]) = Some acc"
      then have "acc = ?acc @ [c]" by simp
      with inv show "acc \<noteq> [] \<and> (\<forall>n<length acc. space_width (drop n acc @ r) = 0)"
        by simp
    qed
  next
    case False
    with "2.prems"(1) have
      "f \<in> set (case cur of None \<Rightarrow> [] | Some f \<Rightarrow> [f])
        \<or> f \<in> set (fields_scan None (drop (space_width (c # r) - 1) r))"
      by (simp add: Let_def)
    then show ?thesis
    proof
      assume "f \<in> set (case cur of None \<Rightarrow> [] | Some f \<Rightarrow> [f])"
      then have cur: "cur = Some f" by (cases cur) auto
      from "2.prems"(2) [OF cur] have "f \<noteq> []"
        and "\<forall>n<length f. space_width (drop n f @ c # r) = 0" by simp_all
      then show ?thesis
        unfolding space_free_def using space_width_append_zero by blast
    next
      assume "f \<in> set (fields_scan None (drop (space_width (c # r) - 1) r))"
      then show ?thesis
        by (rule "2.IH"(2) [OF refl False]) simp
    qed
  qed
qed

lemma Fields_space_free:
  assumes "f \<in> set (Fields s)"
  shows "space_free f"
  using assms unfolding Fields_def by (rule fields_scan_space_free) simp

lemma TrimSpace_space_free:
  assumes "space_free f"
  shows "TrimSpace f = f"
proof -
  from assms obtain c r where f: "f = c # r" by (cases f) (auto simp: space_free_def)
  from assms have z: "space_width (drop n f) = 0" if "n < length f" for n
    using that by (simp add: space_free_def)
  from z [of 0] have l: "trimLeft f = f" by (simp add: f)
  have "space_width_last f = 0"
    unfolding space_width_last_zero
  proof
    fix p assume p: "p \<in> set whiteSpace"
    show "\<not> HasSuffix f p"
    proof
      assume s: "HasSuffix f p"
      from p have "p \<noteq> []" by (rule whiteSpace_nonempty)
      with s have "length f - length p < length f" by (auto simp: HasSuffix_def f)
      from z [OF this] have "space_width (drop (length f - length p) f) = 0" .
      with HasSuffix_drop [OF s] p show False
        unfolding space_width_zero by blast
    qed
  qed
  then have "trimRight f = f" by (simp add: f)
  with l show ?thesis by (simp add: TrimSpace_def)
qed

lemma handleStartPayload_eq:
  "handleStartPayload api c now chatID txt =
     (case Fields txt of
        first # second # rest \<Rightarrow>
          if first = ''/start'' \<and> HasPrefix second ''tt_''
          then (True, fst (snd (linkCache_get c (drop 3 second) now)),
                snd (snd (linkCache_get c (drop 3 second) now))
                  @ (if snd (fst (linkCache_get c (drop 3 second) now))
                     then sendTikTok api chatID (fst (fst (linkCache_get c (drop 3 second) now)))
                     else [SendMessage chatID linkExpiredText '''']))
          else (False, c, [])
      | _ \<Rightarrow> (False, c, []))"
proof (cases "Fields txt")
  case Nil
  then show ?thesis by (simp add: handleStartPayload_def Let_def)
next
  case (Cons first more)
  note outer = Cons
  show ?thesis
  proof (cases more)
    case Nil
    with outer show ?thesis by (simp add: handleStartPayload_def Let_def)
  next
    case (Cons second rest)
    with outer have f: "Fields txt = first # second # rest" by simp
    then have "second \<in> set (Fields txt)" by simp
    then have t: "TrimSpace second = second"
      by (intro TrimSpace_space_free Fields_space_free)
    obtain link ok c' fx where g: "linkCache_get c (drop 3 second) now = ((link, ok), c', fx)"
      by (cases "linkCache_get c (drop 3 second) now") auto
    show ?thesis
      using g by (simp add: handleStartPayload_def f t Let_def startTokenPref_def
          TrimPrefix_def numeral_3_eq_3)
  qed
qed

lemma space_width_plain:
  assumes "c \<notin> hd ` set whiteSpace"
  shows "space_width (c # r) = 0"
  unfolding space_width_zero
proof
  fix p assume p: "p \<in> set whiteSpace"
  show "\<not> HasPrefix (c # r) p"
  proof
    assume h: "HasPrefix (c # r) p"
    from whiteSpace_nonempty [OF p] have "\<exists>a q. p = a # q" by (simp add: neq_Nil_conv)
    then obtain a q where pq: "p = a # q" by blast
    with h have "a = c" by (simp add: HasPrefix_def)
    with pq p have "c \<in> hd ` set whiteSpace" by force
    with assms show False by simp
  qed
qed

lemma fields_scan_plain:
  assumes "\<forall>c\<in>set w. c \<notin> hd ` set whiteSpace" and "w \<noteq> []"
  shows "fields_scan cur (w @ rest)
    = fields_scan (Some ((case cur of None \<Rightarrow> [] | Some f \<Rightarrow> f) @ w)) rest"
  using assms
proof (induction w arbitrary: cur)
  case Nil
  then show ?case by simp
next
  case (Cons a w)
  from Cons.prems have a: "space_width (a # w @ rest) = 0"
    by (intro space_width_plain) simp
  show ?case
  proof (cases "w = []")
    case True
    with a show ?thesis by (simp add: Let_def)
  next
    case False
    from Cons.prems have "\<forall>c\<in>set w. c \<notin> hd ` set whiteSpace" by simp
    from Cons.IH [OF this False, of "Some ((case cur of None \<Rightarrow> [] | Some f \<Rightarrow> f) @ [a])"] a
    show ?thesis by (simp add: Let_def)
  qed
qed

lemma Fields_start_payload:
  assumes "\<forall>c\<in>set tok. c \<notin> hd ` set whiteSpace"
  shows "Fields (''/start '' @ ''tt_'' @ tok) = [''/start'', ''tt_'' @ tok]"
proof -
  have p1: "\<forall>c\<in>set ''/start''. c \<notin> hd ` set whiteSpace"
    by (simp add: whiteSpace_def)
  have "\<forall>c\<in>set ''tt_''. c \<notin> hd ` set whiteSpace"
    by (simp add: whiteSpace_def)
  with assms have p2: "\<forall>c\<in>set (''tt_'' @ tok). c \<notin> hd ` set whiteSpace"
    by auto
  have sp: "space_width (CHR '' '' # r) = 1" for r
    by (simp add: space_width_def whiteSpace_def HasPrefix_def)
  have "Fields (''/start'' @ (CHR '' '' # (''tt_'' @ tok) @ []))
      = fields_scan (Some ''/start'') (CHR '' '' # (''tt_'' @ tok) @ [])"
    unfolding Fields_def by (subst fields_scan_plain [OF p1]) simp_all
  also have "\<dots> = [''/start''] @ fields_scan None ((''tt_'' @ tok) @ [])"
    by (simp add: sp Let_def)
  also have "fields_scan None ((''tt_'' @ tok) @ []) = fields_scan (Some (''tt_'' @ tok)) []"
    by (subst fields_scan_plain [OF p2]) simp_all
  finally show ?thesis by simp
qed

lemma enc64_plain: "enc64 v \<notin> hd ` set whiteSpace"
proof -
  have "length encodeURL = 64" by (simp add: encodeURL_def)
  then have "enc64 v \<in> set encodeURL" unfolding enc64_def by (intro nth_mem) simp
  moreover have "\<forall>c\<in>set encodeURL. c \<notin> hd ` set whiteSpace"
    by (simp add: encodeURL_def whiteSpace_def)
  ultimately show ?thesis by blast
qed

lemma EncodeToString_plain: "\<forall>c\<in>set (EncodeToString bs). c \<notin> hd ` set whiteSpace"
  by (induction bs rule: EncodeToString.induct) (simp_all add: Let_def enc64_plain)

lemma digit_char_plain: "digit_char d \<notin> hd ` set whiteSpace"
proof -
  have "digit_char d \<in> set ''0123456789''" unfolding digit_char_def by (intro nth_mem) simp
  moreover have "\<forall>c\<in>set ''0123456789''. c \<notin> hd ` set whiteSpace"
    by (simp add: whiteSpace_def)
  ultimately show ?thesis by blast
qed

lemma decimal_nat_plain: "\<forall>c\<in>set (decimal_nat n). c \<notin> hd ` set whiteSpace"
proof (induction n rule: decimal_nat.induct)
  case (1 n)
  show ?case
  proof (cases "n < 10")
    case True
    then show ?thesis by (subst decimal_nat.simps) (simp add: digit_char_plain)
  next
    case False
    with "1.IH" show ?thesis by (subst decimal_nat.simps) (simp add: digit_char_plain)
  qed
qed

lemma randomToken_plain: "\<forall>c\<in>set (fst (randomToken n src un)). c \<notin> hd ` set whiteSpace"
proof (cases src)
  case (RandBytes bs)
  then show ?thesis by (simp add: randomToken_bytes EncodeToString_plain)
next
  case RandFail
  have "CHR ''-'' \<notin> hd ` set whiteSpace" by (simp add: whiteSpace_def)
  with RandFail show ?thesis
    using decimal_nat_plain by (simp add: randomToken_fail sprintf_d_def)
qed

lemma Fields_empty: "Fields '''' = []"
  by (simp add: Fields_def)

lemma Fields_start_only: "Fields ''/start'' = [''/start'']"
proof -
  have p1: "\<forall>c\<in>set ''/start''. c \<notin> hd ` set whiteSpace"
    by (simp add: whiteSpace_def)
  have "fields_scan None (''/start'' @ []) = fields_scan (Some ''/start'') []"
    by (subst fields_scan_plain [OF p1]) simp_all
  then show ?thesis by (simp add: Fields_def)
qed

lemma linkCache_get_live:
  assumes "c token = Some \<lparr>url = u, expires = e\<rparr>" and "now \<le> e"
  shows "linkCache_get c token now = ((u, True), c, [MuLock, MapRead token, MuUnlock])"
  using assms by (simp add: linkCache_get_def)

text \<open>
  C10: \<^verbatim>\<open>handleStartPayload\<close> treats a message as a callback (returns true) exactly when
  its first field is \<^verbatim>\<open>/start\<close> and there is a second field that starts with \<^verbatim>\<open>tt_\<close>. It
  then looks up the second field without its first three bytes; when the lookup finds
  nothing it sends the expiry notice, otherwise it delivers the link. On any other
  message it returns false and touches nothing, and \<^verbatim>\<open>handlerMessage\<close> goes on to the
  ordinary handling of a link in the text. The message that opens a minted deep link,
  \<^verbatim>\<open>/start\<close> followed by the prefix and the token \<^verbatim>\<open>set\<close> returned, reaches the entry
  \<^verbatim>\<open>set\<close> stored.
\<close>

theorem C10_start_payload_dispatch:
  "(fst (handleStartPayload api c now chatID txt) \<longleftrightarrow>
      (\<exists>second rest. Fields txt = ''/start'' # second # rest \<and> HasPrefix second ''tt_''))
   \<and> (\<forall>second rest. Fields txt = ''/start'' # second # rest \<and> HasPrefix second ''tt_'' \<longrightarrow>
        handleStartPayload api c now chatID txt =
          (True, fst (snd (linkCache_get c (drop 3 second) now)),
           snd (snd (linkCache_get c (drop 3 second) now))
             @ (if snd (fst (linkCache_get c (drop 3 second) now))
                then sendTikTok api chatID (fst (fst (linkCache_get c (drop 3 second) now)))
                else [SendMessage chatID linkExpiredText ''''])))
   \<and> (\<not> fst (handleStartPayload api c now chatID txt) \<longrightarrow>
        handleStartPayload api c now chatID txt = (False, c, [])
      \<and> handlerMessage api findLink c now chatID txt =
          (c, if txt = '''' \<or> findLink txt = '''' then []
              else sendTikTok api chatID (findLink txt)))
   \<and> (fst (handleStartPayload api c now chatID txt) \<longrightarrow>
        handlerMessage api findLink c now chatID txt
          = snd (handleStartPayload api c now chatID txt))
   \<and> (linkCache_set c0 u src un t0 = (token, c, fx) \<and> now \<le> t0 + cacheTTL \<longrightarrow>
        handleStartPayload api c now chatID (''/start '' @ startTokenPref @ token)
          = (True, c, [MuLock, MapRead token, MuUnlock] @ sendTikTok api chatID u))"
proof -
  let ?h = "handleStartPayload api c now chatID txt"
  have iff: "fst ?h \<longleftrightarrow>
      (\<exists>second rest. Fields txt = ''/start'' # second # rest \<and> HasPrefix second ''tt_'')"
    by (auto simp: handleStartPayload_eq split: list.splits)
  have cb: "\<forall>second rest. Fields txt = ''/start'' # second # rest \<and> HasPrefix second ''tt_'' \<longrightarrow>
        ?h =
          (True, fst (snd (linkCache_get c (drop 3 second) now)),
           snd (snd (linkCache_get c (drop 3 second) now))
             @ (if snd (fst (linkCache_get c (drop 3 second) now))
                then sendTikTok api chatID (fst (fst (linkCache_get c (drop 3 second) now)))
                else [SendMessage chatID linkExpiredText '''']))"
    by (simp add: handleStartPayload_eq)
  have no: "?h = (False, c, [])" if "\<not> fst ?h"
    using that by (auto simp: handleStartPayload_eq split: list.splits if_splits)
  have ft: "\<not> fst ?h \<longrightarrow>
        ?h = (False, c, [])
      \<and> handlerMessage api findLink c now chatID txt =
          (c, if txt = '''' \<or> findLink txt = '''' then []
              else sendTikTok api chatID (findLink txt))"
  proof
    assume "\<not> fst ?h"
    then have h: "?h = (False, c, [])" by (rule no)
    then show "?h = (False, c, [])
      \<and> handlerMessage api findLink c now chatID txt =
          (c, if txt = '''' \<or> findLink txt = '''' then []
              else sendTikTok api chatID (findLink txt))"
      by (simp add: handlerMessage_def Let_def)
  qed
  have hd: "fst ?h \<longrightarrow> handlerMessage api findLink c now chatID txt = snd ?h"
  proof
    assume t: "fst ?h"
    have "txt \<noteq> ''''"
    proof
      assume "txt = ''''"
      with t show False by (simp add: handleStartPayload_eq Fields_empty)
    qed
    moreover obtain c' fx' where "?h = (True, c', fx')"
      using t by (cases ?h) auto
    ultimately show "handlerMessage api findLink c now chatID txt = snd ?h"
      by (simp add: handlerMessage_def)
  qed
  have dl: "linkCache_set c0 u src un t0 = (token, c, fx) \<and> now \<le> t0 + cacheTTL \<longrightarrow>
        handleStartPayload api c now chatID (''/start '' @ startTokenPref @ token)
          = (True, c, [MuLock, MapRead token, MuUnlock] @ sendTikTok api chatID u)"
  proof
    assume a: "linkCache_set c0 u src un t0 = (token, c, fx) \<and> now \<le> t0 + cacheTTL"
    then have s: "linkCache_set c0 u src un t0 = (token, c, fx)" and n: "now \<le> t0 + cacheTTL"
      by simp_all
    from s have tok: "token = fst (randomToken 12 src un)"
      by (auto simp: linkCache_set_def split: prod.splits)
    have plain: "\<forall>ch\<in>set token. ch \<notin> hd ` set whiteSpace"
      unfolding tok by (rule randomToken_plain)
    have f: "Fields (''/start '' @ startTokenPref @ token) = [''/start'', ''tt_'' @ token]"
      unfolding startTokenPref_def by (rule Fields_start_payload [OF plain])
    have p: "HasPrefix (''tt_'' @ token) ''tt_''" by (simp add: HasPrefix_def)
    have d: "drop 3 (''tt_'' @ token) = token" by simp
    have g: "linkCache_get c token now = ((u, True), c, [MuLock, MapRead token, MuUnlock])"
      using set_stores [OF s] n by (rule linkCache_get_live [of c token])
    show "handleStartPayload api c now chatID (''/start '' @ startTokenPref @ token)
          = (True, c, [MuLock, MapRead token, MuUnlock] @ sendTikTok api chatID u)"
      unfolding handleStartPayload_eq f by (simp only: list.case p d g) simp
  qed
  show ?thesis
    by (intro conjI) (fact iff cb ft hd dl)+
qed

theorem C10_start_payload_dispatch_witness:
  "handleStartPayload (\<lambda>l. None) [''abc'' \<mapsto> \<lparr>url = ''L'', expires = 100\<rparr>] 50 7 ''/start tt_abc''
     = (True, [''abc'' \<mapsto> \<lparr>url = ''L'', expires = 100\<rparr>],
        [MuLock, MapRead ''abc'', MuUnlock, HttpGet ''https://www.tikwm.com/api/?url=L''])
   \<and> handleStartPayload (\<lambda>l. None) [''abc'' \<mapsto> \<lparr>url = ''L'', expires = 100\<rparr>] 200 7 ''/start tt_abc''
     = (True, Map.empty,
        [MuLock, MapRead ''abc'', MapDelete ''abc'', MuUnlock, SendMessage 7 linkExpiredText ''''])
   \<and> handleStartPayload (\<lambda>l. None) [''abc'' \<mapsto> \<lparr>url = ''L'', expires = 100\<rparr>] 50 7 ''/start''
     = (False, [''abc'' \<mapsto> \<lparr>url = ''L'', expires = 100\<rparr>], [])
   \<and> handlerMessage (\<lambda>l. None) (\<lambda>t. ''https://vm.tiktok.com/x'')
        [''abc'' \<mapsto> \<lparr>url = ''L'', expires = 100\<rparr>] 50 7 ''/start''
     = ([''abc'' \<mapsto> \<lparr>url = ''L'', expires = 100\<rparr>],
        [HttpGet ''https://www.tikwm.com/api/?url=https://vm.tiktok.com/x''])
   \<and> linkCache_set newLinkCache ''L'' (RandBytes ''abcdefghijkl'') 0 1000 =
       (''YWJjZGVmZ2hpamts'',
        [''YWJjZGVmZ2hpamts'' \<mapsto> \<lparr>url = ''L'', expires = 1000 + cacheTTL\<rparr>],
        [MuLock, MapWrite ''YWJjZGVmZ2hpamts'', MuUnlock])
   \<and> deepLink ''bot'' ''YWJjZGVmZ2hpamts'' = ''https://t.me/bot?start=tt_YWJjZGVmZ2hpamts''
   \<and> handleStartPayload (\<lambda>l. None)
        [''YWJjZGVmZ2hpamts'' \<mapsto> \<lparr>url = ''L'', expires = 1000 + cacheTTL\<rparr>] 2000 7
        ''/start tt_YWJjZGVmZ2hpamts''
     = (True, [''YWJjZGVmZ2hpamts'' \<mapsto> \<lparr>url = ''L'', expires = 1000 + cacheTTL\<rparr>],
        [MuLock, MapRead ''YWJjZGVmZ2hpamts'', MuUnlock,
         HttpGet ''https://www.tikwm.com/api/?url=L''])"
proof -
  let ?c = "[''abc'' \<mapsto> \<lparr>url = ''L'', expires = 100\<rparr>]"
  let ?api = "\<lambda>l::string. None :: response option"
  let ?find = "\<lambda>t::string. ''https://vm.tiktok.com/x''"
  have plain: "\<forall>ch\<in>set ''abc''. ch \<notin> hd ` set whiteSpace"
    by (simp add: whiteSpace_def)
  have f: "Fields ''/start tt_abc'' = ''/start'' # ''tt_abc'' # []"
    using Fields_start_payload [OF plain] by simp
  have p: "HasPrefix ''tt_abc'' ''tt_''" by (simp add: HasPrefix_def)
  have d: "drop 3 ''tt_abc'' = ''abc''" by simp
  have s: "sendTikTok ?api 7 l = [HttpGet (''https://www.tikwm.com/api/?url='' @ l)]" for l
    by (simp add: sendTikTok_def fetchTikTok_def)
  have e: "?c(''abc'' := None) = Map.empty" by (rule ext) simp
  note live = C10_start_payload_dispatch [of ?api ?c 50 7 "''/start tt_abc''" ?find]
  note dead = C10_start_payload_dispatch [of ?api ?c 200 7 "''/start tt_abc''" ?find]
  note none = C10_start_payload_dispatch [of ?api ?c 50 7 "''/start''" ?find]
  from live f p have "handleStartPayload ?api ?c 50 7 ''/start tt_abc'' =
          (True, fst (snd (linkCache_get ?c (drop 3 ''tt_abc'') 50)),
           snd (snd (linkCache_get ?c (drop 3 ''tt_abc'') 50))
             @ (if snd (fst (linkCache_get ?c (drop 3 ''tt_abc'') 50))
                then sendTikTok ?api 7 (fst (fst (linkCache_get ?c (drop 3 ''tt_abc'') 50)))
                else [SendMessage 7 linkExpiredText '''']))"
    by blast
  then have 1: "handleStartPayload ?api ?c 50 7 ''/start tt_abc''
     = (True, ?c, [MuLock, MapRead ''abc'', MuUnlock, HttpGet ''https://www.tikwm.com/api/?url=L''])"
    unfolding d by (simp add: linkCache_get_def s)
  from dead f p have "handleStartPayload ?api ?c 200 7 ''/start tt_abc'' =
          (True, fst (snd (linkCache_get ?c (drop 3 ''tt_abc'') 200)),
           snd (snd (linkCache_get ?c (drop 3 ''tt_abc'') 200))
             @ (if snd (fst (linkCache_get ?c (drop 3 ''tt_abc'') 200))
                then sendTikTok ?api 7 (fst (fst (linkCache_get ?c (drop 3 ''tt_abc'') 200)))
                else [SendMessage 7 linkExpiredText '''']))"
    by blast
  then have 2: "handleStartPayload ?api ?c 200 7 ''/start tt_abc''
     = (True, Map.empty,
        [MuLock, MapRead ''abc'', MapDelete ''abc'', MuUnlock, SendMessage 7 linkExpiredText ''''])"
    unfolding d by (simp add: linkCache_get_def e)
  have "\<not> (\<exists>second rest. Fields ''/start'' = ''/start'' # second # rest \<and> HasPrefix second ''tt_'')"
    by (simp add: Fields_start_only)
  with none have nh: "\<not> fst (handleStartPayload ?api ?c 50 7 ''/start'')" by blast
  with none have 3: "handleStartPayload ?api ?c 50 7 ''/start'' = (False, ?c, [])" by blast
  from none nh have "handlerMessage ?api ?find ?c 50 7 ''/start'' =
          (?c, if ''/start'' = '''' \<or> ?find ''/start'' = '''' then []
              else sendTikTok ?api 7 (?find ''/start''))" by blast
  then have 4: "handlerMessage ?api ?find ?c 50 7 ''/start''
     = (?c, [HttpGet ''https://www.tikwm.com/api/?url=https://vm.tiktok.com/x''])"
    by (simp add: s)
  let ?c1 = "[''YWJjZGVmZ2hpamts'' \<mapsto> \<lparr>url = ''L'', expires = 1000 + cacheTTL\<rparr>]"
  have 5: "linkCache_set newLinkCache ''L'' (RandBytes ''abcdefghijkl'') 0 1000 =
       (''YWJjZGVmZ2hpamts'', ?c1, [MuLock, MapWrite ''YWJjZGVmZ2hpamts'', MuUnlock])"
    by (simp add: linkCache_set_def token_abcdefghijkl newLinkCache_def)
  have n: "(2000::int) \<le> 1000 + cacheTTL" by (simp add: cacheTTL_def)
  have 6: "deepLink ''bot'' ''YWJjZGVmZ2hpamts'' = ''https://t.me/bot?start=tt_YWJjZGVmZ2hpamts''"
    by (simp add: deepLink_def startTokenPref_def)
  note link = C10_start_payload_dispatch [where api = ?api and c = ?c1 and now = 2000
      and chatID = 7 and ?c0.0 = newLinkCache and u = "''L''" and src = "RandBytes ''abcdefghijkl''"
      and un = 0 and ?t0.0 = 1000 and token = "''YWJjZGVmZ2hpamts''"
      and fx = "[MuLock, MapWrite ''YWJjZGVmZ2hpamts'', MuUnlock]"]
  from link 5 n have "handleStartPayload ?api ?c1 2000 7
        (''/start '' @ startTokenPref @ ''YWJjZGVmZ2hpamts'')
      = (True, ?c1, [MuLock, MapRead ''YWJjZGVmZ2hpamts'', MuUnlock] @ sendTikTok ?api 7 ''L'')"
    by blast
  then have 7: "handleStartPayload ?api ?c1 2000 7 ''/start tt_YWJjZGVmZ2hpamts''
      = (True, ?c1, [MuLock, MapRead ''YWJjZGVmZ2hpamts'', MuUnlock,
           HttpGet ''https://www.tikwm.com/api/?url=L''])"
    by (simp add: startTokenPref_def s)
  from 1 2 3 4 5 6 7 show ?thesis by (intro conjI)
qed

end
